theory Spec2Isabelle
  imports Main "HOL-Library.Word" "HOL-Library.Signed_Division"
begin

unbundle bit_operations_syntax

section \<open>The ESP32 RMT clockless LED driver (clockless_rmt_esp32.h)\<close>

text \<open>
  The embedding follows \<^verbatim>\<open>clockless_rmt_esp32.h\<close> in the configuration of the custom
  interrupt-driven driver (\<^verbatim>\<open>FASTLED_RMT_BUILTIN_DRIVER\<close> false): the branches taken when
  the built-in RMT driver is selected (\<^verbatim>\<open>convertAllPixelData\<close>, \<^verbatim>\<open>rmt_write_items\<close>) are
  not part of it.

  Calls into the hardware abstraction (RMT memory writes, \<^verbatim>\<open>rmt_tx_start\<close>, the semaphore
  calls, ...) are recorded as events, in program order, in the field \<open>trace\<close> of the global
  state. The C \<^verbatim>\<open>int\<close> counters are only ever incremented and reset to zero; they are
  natural numbers here.
\<close>

subsection \<open>Configuration constants\<close>

definition DIVIDER :: int where
  "DIVIDER = 2"

definition MAX_PULSES :: nat where
  "MAX_PULSES = 64"

definition PULSES_PER_FILL :: nat where
  "PULSES_PER_FILL = 24"

definition F_CPU_RMT :: int where
  "F_CPU_RMT = 80000000"

definition RMT_CYCLES_PER_SEC :: int where
  "RMT_CYCLES_PER_SEC = F_CPU_RMT sdiv DIVIDER"

text \<open>
  \<^verbatim>\<open>F_CPU\<close> is defined outside this file; it is a parameter. C's \<^verbatim>\<open>/\<close> truncates towards
  zero (\<open>sdiv\<close>).
\<close>

definition RMT_CYCLES_PER_ESP_CYCLE :: "int \<Rightarrow> int" where
  "RMT_CYCLES_PER_ESP_CYCLE F_CPU = F_CPU sdiv RMT_CYCLES_PER_SEC"

datatype error = NullPointer | WouldBlock | DivisionByZero

definition ESP_TO_RMT_CYCLES :: "int \<Rightarrow> int \<Rightarrow> error + int" where
  "ESP_TO_RMT_CYCLES F_CPU n =
     (if RMT_CYCLES_PER_ESP_CYCLE F_CPU = 0 then Inl DivisionByZero
      else Inr (n sdiv RMT_CYCLES_PER_ESP_CYCLE F_CPU))"

definition FASTLED_RMT_MAX_CONTROLLERS :: nat where
  "FASTLED_RMT_MAX_CONTROLLERS = 32"

subsection \<open>Pulse descriptors and the pixel source\<close>

text \<open>
  \<^verbatim>\<open>rmt_item32_t\<close> is declared by the ESP-IDF (driver/rmt.h), not in this file: a union of one
  32-bit word \<^verbatim>\<open>val\<close> with four bit-fields, \<^verbatim>\<open>duration0:15, level0:1, duration1:15,
  level1:1\<close>, lowest bits first. An assignment to a bit-field keeps the low bits of the value.
\<close>

record rmt_item32_t =
  duration0 :: "15 word"
  level0 :: "1 word"
  duration1 :: "15 word"
  level1 :: "1 word"

definition val :: "rmt_item32_t \<Rightarrow> 32 word" where
  "val it = ucast (duration0 it) OR push_bit 15 (ucast (level0 it))
            OR push_bit 16 (ucast (duration1 it)) OR push_bit 31 (ucast (level1 it))"

text \<open>
  Modelled from the spec: the pixel source (\<^verbatim>\<open>PixelController\<close>, declared elsewhere in the
  library) is a single-pass producer of pixels of three colour bytes. It is the list of the
  pixels it has not produced yet, each with the bytes that \<^verbatim>\<open>loadAndScale0/1/2\<close> return for
  it; \<^verbatim>\<open>has(1)\<close> says the list is not empty, \<^verbatim>\<open>advanceData\<close> drops its head and
  \<^verbatim>\<open>stepDithering\<close> is bookkeeping inside the source.
\<close>

type_synonym PixelController = "(8 word \<times> 8 word \<times> 8 word) list"

definition has :: "PixelController \<Rightarrow> nat \<Rightarrow> bool" where
  "has px n = (n \<le> length px)"

definition loadAndScale0 :: "PixelController \<Rightarrow> 8 word" where
  "loadAndScale0 px = (case px of [] \<Rightarrow> 0 | (b0, b1, b2) # _ \<Rightarrow> b0)"

definition loadAndScale1 :: "PixelController \<Rightarrow> 8 word" where
  "loadAndScale1 px = (case px of [] \<Rightarrow> 0 | (b0, b1, b2) # _ \<Rightarrow> b1)"

definition loadAndScale2 :: "PixelController \<Rightarrow> 8 word" where
  "loadAndScale2 px = (case px of [] \<Rightarrow> 0 | (b0, b1, b2) # _ \<Rightarrow> b2)"

definition advanceData :: "PixelController \<Rightarrow> PixelController" where
  "advanceData px = tl px"

definition stepDithering :: "PixelController \<Rightarrow> PixelController" where
  "stepDithering px = px"

subsection \<open>The controller object and the refill step\<close>

text \<open>
  \<open>mRMT_mem_ptr\<close> points into \<^verbatim>\<open>RMTMEM\<close>. Addresses count 32-bit slots from the start of
  \<^verbatim>\<open>RMTMEM\<close>, whose channels are consecutive blocks of 64 slots
  (\<^verbatim>\<open>RMTMEM.chan[c].data32[i]\<close> is slot \<open>c * 64 + i\<close>), so that pointer arithmetic is addition.
\<close>

definition RMTMEM_chan :: "nat \<Rightarrow> nat" where
  "RMTMEM_chan channel = channel * 64"

record controller =
  mRMT_channel :: nat
  mPin :: nat
  mZero :: rmt_item32_t
  mOne :: rmt_item32_t
  mPixels :: PixelController
  mCurColor :: int
  mCurPulse :: "16 word"
  mRMT_mem_ptr :: nat

text \<open>
  The loop \<^verbatim>\<open>for (j = 0; j < 24; j++)\<close> of \<^verbatim>\<open>fillNext\<close>, by the number of iterations left.
  It returns the writes \<^verbatim>\<open>*pItem++ = val\<close> in order, and the final \<^verbatim>\<open>pItem\<close> and
  \<^verbatim>\<open>curPulse\<close>.
\<close>

fun fill_loop ::
  "nat \<Rightarrow> 32 word \<Rightarrow> 32 word \<Rightarrow> nat \<Rightarrow> 32 word \<Rightarrow> nat \<Rightarrow> 16 word
     \<Rightarrow> (nat \<times> 32 word) list \<times> nat \<times> 16 word" where
  "fill_loop 0 one_val zero_val channel pixel pItem curPulse = ([], pItem, curPulse)"
| "fill_loop (Suc n) one_val zero_val channel pixel pItem curPulse =
     (let v = (if pixel AND 0x80000000 \<noteq> 0 then one_val else zero_val);
          pItem1 = pItem + 1;
          pixel1 = push_bit 1 pixel;
          curPulse1 = curPulse + 1;
          (pItem2, curPulse2) =
             (if curPulse1 = of_nat MAX_PULSES then (RMTMEM_chan channel, 0)
              else (pItem1, curPulse1));
          (ws, p, c) = fill_loop n one_val zero_val channel pixel1 pItem2 curPulse2
      in ((pItem, v) # ws, p, c))"

text \<open>The loop \<^verbatim>\<open>for (j = 0; j < 8; j++) *mRMT_mem_ptr++ = 0\<close>.\<close>

fun zero_loop :: "nat \<Rightarrow> nat \<Rightarrow> (nat \<times> 32 word) list \<times> nat" where
  "zero_loop 0 p = ([], p)"
| "zero_loop (Suc n) p = (let (ws, p') = zero_loop n (p + 1) in ((p, 0) # ws, p'))"

text \<open>
  \<^verbatim>\<open>fillNext\<close>: the controller after the call and the writes to RMT memory, in order.
\<close>

definition fillNext :: "controller \<Rightarrow> controller \<times> (nat \<times> 32 word) list" where
  "fillNext c =
     (if has (mPixels c) 1 then
        (let one_val = val (mOne c);
             zero_val = val (mZero c);
             byte0 = loadAndScale0 (mPixels c);
             byte1 = loadAndScale1 (mPixels c);
             byte2 = loadAndScale2 (mPixels c);
             px = stepDithering (advanceData (mPixels c));
             pixel = push_bit 24 (ucast byte0) OR push_bit 16 (ucast byte1)
                     OR push_bit 8 (ucast byte2);
             (ws, pItem, curPulse) =
                fill_loop 24 one_val zero_val (mRMT_channel c) pixel
                  (mRMT_mem_ptr c) (mCurPulse c)
         in (c\<lparr>mPixels := px, mCurPulse := curPulse, mRMT_mem_ptr := pItem\<rparr>, ws))
      else
        (let (ws, p) = zero_loop 8 (mRMT_mem_ptr c)
         in (c\<lparr>mRMT_mem_ptr := p\<rparr>, ws)))"

subsection \<open>The global state\<close>

text \<open>
  Calls into the RMT peripheral, the GPIO matrix and FreeRTOS, as they appear in the file.
  \<open>RmtMemWrite a v\<close> is a store of \<open>v\<close> to slot \<open>a\<close> of \<^verbatim>\<open>RMTMEM\<close>.
\<close>

datatype event =
    RmtMemWrite nat "32 word"
  | RmtConfig nat nat
  | RmtSetTxThrIntrEn nat nat
  | RmtSetPin nat nat
  | RmtSetTxIntrEn nat
  | RmtTxStart nat
  | GpioMatrixOut nat
  | EspIntrAlloc
  | SemCreateBinary
  | SemGive
  | SemTake
  | SemGiveFromISR

text \<open>
  Controller objects live in \<open>heap\<close>, addressed by natural numbers; \<open>gControllers\<close> and
  \<open>gOnChannel\<close> hold pointers (\<open>None\<close> is \<^verbatim>\<open>NULL\<close>). Both arrays are maps from the index, so
  that a store at any index is a branch of the model: the indices from
  \<open>FASTLED_RMT_MAX_CONTROLLERS\<close> on lie outside the C array \<^verbatim>\<open>gControllers\<close>.
  \<open>gTX_sem\<close> is \<open>None\<close> while the handle is \<^verbatim>\<open>NULL\<close>, and \<open>Some b\<close> for a binary semaphore
  that is available iff \<open>b\<close>. \<open>gRMT_intr_handle\<close> says whether the handle is set.
\<close>

record state =
  heap :: "nat \<Rightarrow> controller"
  gControllers :: "nat \<rightharpoonup> nat"
  gOnChannel :: "nat \<rightharpoonup> nat"
  gNumControllers :: nat
  gNumStarted :: nat
  gNumDone :: nat
  gNext :: nat
  gRMT_intr_handle :: bool
  gTX_sem :: "bool option"
  gInitialized :: bool
  RMT_int_clr :: "32 word"
  trace :: "event list"

text \<open>The static initialisers, over any heap.\<close>

definition initial_state :: "(nat \<Rightarrow> controller) \<Rightarrow> state" where
  "initial_state h =
     \<lparr>heap = h, gControllers = Map.empty, gOnChannel = Map.empty, gNumControllers = 0,
      gNumStarted = 0, gNumDone = 0, gNext = 0, gRMT_intr_handle = False, gTX_sem = None,
      gInitialized = False, RMT_int_clr = 0, trace = []\<rparr>"

subsection \<open>Registration: \<^verbatim>\<open>init\<close>\<close>

text \<open>
  The template parameters \<^verbatim>\<open>DATA_PIN\<close>, \<^verbatim>\<open>T1\<close>, \<^verbatim>\<open>T2\<close>, \<^verbatim>\<open>T3\<close> and the constant \<^verbatim>\<open>F_CPU\<close> are
  arguments; \<open>this\<close> is the address of the controller. The buffer that \<^verbatim>\<open>malloc\<close> returns
  for \<^verbatim>\<open>mPixels\<close> is not initialised: the field is left as it is. The sums \<^verbatim>\<open>T1+T2\<close> and
  \<^verbatim>\<open>T2+T3\<close> are taken in \<open>int\<close>.
\<close>

definition init :: "int \<Rightarrow> nat \<Rightarrow> int \<Rightarrow> int \<Rightarrow> int \<Rightarrow> nat \<Rightarrow> state \<Rightarrow> error + state" where
  "init F_CPU DATA_PIN T1 T2 T3 this s =
     (case ESP_TO_RMT_CYCLES F_CPU (T1 + T2) of Inl e \<Rightarrow> Inl e | Inr one0 \<Rightarrow>
      case ESP_TO_RMT_CYCLES F_CPU T3 of Inl e \<Rightarrow> Inl e | Inr one1 \<Rightarrow>
      case ESP_TO_RMT_CYCLES F_CPU T1 of Inl e \<Rightarrow> Inl e | Inr zero0 \<Rightarrow>
      case ESP_TO_RMT_CYCLES F_CPU (T2 + T3) of Inl e \<Rightarrow> Inl e | Inr zero1 \<Rightarrow>
        (let c = heap s this;
             one = (mOne c)\<lparr>level0 := 1, duration0 := word_of_int one0,
                             level1 := 0, duration1 := word_of_int one1\<rparr>;
             zero = (mZero c)\<lparr>level0 := 1, duration0 := word_of_int zero0,
                               level1 := 0, duration1 := word_of_int zero1\<rparr>;
             c1 = c\<lparr>mOne := one, mZero := zero\<rparr>;
             s1 = s\<lparr>heap := (heap s)(this := c1),
                     gControllers := (gControllers s)(gNumControllers s \<mapsto> this)\<rparr>;
             s2 = s1\<lparr>gNumControllers := gNumControllers s1 + 1\<rparr>
         in Inr (s2\<lparr>heap := (heap s2)(this := (heap s2 this)\<lparr>mPin := DATA_PIN\<rparr>)\<rparr>)))"

subsection \<open>The semaphore\<close>

text \<open>
  \<^verbatim>\<open>xSemaphoreTake(gTX_sem, portMAX_DELAY)\<close> returns only once the semaphore is available; on
  a semaphore that is not, the call does not return (\<open>WouldBlock\<close>).
\<close>

definition xSemaphoreTake :: "state \<Rightarrow> error + state" where
  "xSemaphoreTake s =
     (case gTX_sem s of
        None \<Rightarrow> Inl NullPointer
      | Some avail \<Rightarrow>
          if avail then Inr (s\<lparr>gTX_sem := Some False, trace := trace s @ [SemTake]\<rparr>)
          else Inl WouldBlock)"

definition xSemaphoreGive :: "state \<Rightarrow> error + state" where
  "xSemaphoreGive s =
     (case gTX_sem s of
        None \<Rightarrow> Inl NullPointer
      | Some avail \<Rightarrow> Inr (s\<lparr>gTX_sem := Some True, trace := trace s @ [SemGive]\<rparr>))"

definition xSemaphoreGiveFromISR :: "state \<Rightarrow> error + state" where
  "xSemaphoreGiveFromISR s =
     (case gTX_sem s of
        None \<Rightarrow> Inl NullPointer
      | Some avail \<Rightarrow> Inr (s\<lparr>gTX_sem := Some True, trace := trace s @ [SemGiveFromISR]\<rparr>))"

subsection \<open>Starting a controller on a channel\<close>

text \<open>
  A call \<^verbatim>\<open>controller->fillNext()\<close> on the object at \<open>this\<close>; its writes to RMT memory
  enter the trace.
\<close>

definition mem_writes :: "(nat \<times> 32 word) list \<Rightarrow> event list" where
  "mem_writes ws = map (\<lambda>(a, v). RmtMemWrite a v) ws"

definition call_fillNext :: "nat \<Rightarrow> state \<Rightarrow> state" where
  "call_fillNext this s =
     (let (c, ws) = fillNext (heap s this)
      in s\<lparr>heap := (heap s)(this := c), trace := trace s @ mem_writes ws\<rparr>)"

definition startOnChannel :: "nat \<Rightarrow> nat \<Rightarrow> state \<Rightarrow> state" where
  "startOnChannel this channel s =
     (let s1 = s\<lparr>heap := (heap s)(this := (heap s this)\<lparr>mRMT_channel := channel\<rparr>)\<rparr>;
          s2 = s1\<lparr>gOnChannel := (gOnChannel s1)(channel \<mapsto> this)\<rparr>;
          s3 = s2\<lparr>trace := trace s2 @ [RmtSetPin channel (mPin (heap s2 this))]\<rparr>;
          s4 = s3\<lparr>heap := (heap s3)(this := (heap s3 this)
                   \<lparr>mRMT_mem_ptr := RMTMEM_chan channel, mCurPulse := 0, mCurColor := 0\<rparr>)\<rparr>;
          s5 = call_fillNext this s4;
          s6 = call_fillNext this s5
      in s6\<lparr>trace := trace s6 @ [RmtSetTxIntrEn channel]\<rparr>)"

definition startNext :: "nat \<Rightarrow> state \<Rightarrow> error + state" where
  "startNext channel s =
     (if gNext s < gNumControllers s then
        (case gControllers s (gNext s) of
           None \<Rightarrow> Inl NullPointer
         | Some pController \<Rightarrow>
             (let s1 = startOnChannel pController channel s
              in Inr (s1\<lparr>gNext := gNext s1 + 1\<rparr>)))
      else Inr s)"

subsection \<open>Completion and the interrupt handler\<close>

text \<open>
  \<^verbatim>\<open>doneOnChannel\<close>. The yield \<^verbatim>\<open>portYIELD_FROM_ISR\<close> only reschedules tasks and is left out.
\<close>

definition doneOnChannel :: "nat \<Rightarrow> state \<Rightarrow> error + state" where
  "doneOnChannel channel s =
     (case gOnChannel s channel of
        None \<Rightarrow> Inl NullPointer
      | Some controller \<Rightarrow>
          (let s1 = s\<lparr>trace := trace s @ [GpioMatrixOut (mPin (heap s controller))]\<rparr>;
               s2 = s1\<lparr>gOnChannel := (gOnChannel s1)(channel := None)\<rparr>;
               s3 = s2\<lparr>gNumDone := gNumDone s2 + 1\<rparr>
           in if gNumDone s3 = gNumControllers s3 then xSemaphoreGiveFromISR s3
              else if gNext s3 < gNumControllers s3 then
                (case startNext channel s3 of
                   Inl e \<Rightarrow> Inl e
                 | Inr s4 \<Rightarrow>
                     Inr (s4\<lparr>trace := trace s4
                                @ [RmtTxStart (mRMT_channel (heap s4 controller))]\<rparr>))
              else Inr s3))"

definition BIT :: "nat \<Rightarrow> 32 word" where
  "BIT n = push_bit n 1"

text \<open>The body of the loop over the channels in \<^verbatim>\<open>interruptHandler\<close>.\<close>

definition handle_channel :: "32 word \<Rightarrow> nat \<Rightarrow> state \<Rightarrow> error + state" where
  "handle_channel intr_st channel s =
     (let tx_done_bit = channel * 3;
          tx_next_bit = channel + 24
      in case gOnChannel s channel of
           None \<Rightarrow> Inr s
         | Some controller \<Rightarrow>
             if intr_st AND BIT tx_next_bit \<noteq> 0 then
               Inr (call_fillNext controller
                      (s\<lparr>RMT_int_clr := RMT_int_clr s OR BIT tx_next_bit\<rparr>))
             else if intr_st AND BIT tx_done_bit \<noteq> 0 then
               doneOnChannel channel (s\<lparr>RMT_int_clr := RMT_int_clr s OR BIT tx_done_bit\<rparr>)
             else Inr s)"

fun channel_loop :: "32 word \<Rightarrow> nat list \<Rightarrow> state \<Rightarrow> error + state" where
  "channel_loop intr_st [] s = Inr s"
| "channel_loop intr_st (channel # cs) s =
     (case handle_channel intr_st channel s of
        Inl e \<Rightarrow> Inl e
      | Inr s' \<Rightarrow> channel_loop intr_st cs s')"

text \<open>
  \<^verbatim>\<open>interruptHandler\<close>, for the number \<open>M\<close> of channels in use
  (\<^verbatim>\<open>FASTLED_RMT_MAX_CHANNELS\<close>, at most 8) and the value \<open>intr_st\<close> read from
  \<^verbatim>\<open>RMT.int_st.val\<close>.
\<close>

definition interruptHandler :: "nat \<Rightarrow> 32 word \<Rightarrow> state \<Rightarrow> error + state" where
  "interruptHandler M intr_st s = channel_loop intr_st [0..<M] s"

text \<open>A sequence of interrupts, each with the status word it reads.\<close>

fun interrupts :: "nat \<Rightarrow> 32 word list \<Rightarrow> state \<Rightarrow> error + state" where
  "interrupts M [] s = Inr s"
| "interrupts M (intr_st # rest) s =
     (case interruptHandler M intr_st s of
        Inl e \<Rightarrow> Inl e
      | Inr s' \<Rightarrow> interrupts M rest s')"

subsection \<open>\<^verbatim>\<open>initRMT\<close> and \<^verbatim>\<open>showPixels\<close>\<close>

definition initRMT_channel :: "nat \<Rightarrow> nat \<Rightarrow> state \<Rightarrow> state" where
  "initRMT_channel this i s =
     (let s1 = s\<lparr>gOnChannel := (gOnChannel s)(i := None)\<rparr>
      in s1\<lparr>trace := trace s1
                @ [RmtConfig i (mPin (heap s1 this)), RmtSetTxThrIntrEn i PULSES_PER_FILL]\<rparr>)"

definition initRMT :: "nat \<Rightarrow> nat \<Rightarrow> state \<Rightarrow> error + state" where
  "initRMT M this s =
     (let s1 = fold (initRMT_channel this) [0..<M] s
      in case (if gTX_sem s1 = None then
                 xSemaphoreGive (s1\<lparr>gTX_sem := Some False,
                                     trace := trace s1 @ [SemCreateBinary]\<rparr>)
               else Inr s1) of
           Inl e \<Rightarrow> Inl e
         | Inr s2 \<Rightarrow>
             (let s3 = (if \<not> gRMT_intr_handle s2 then
                          s2\<lparr>gRMT_intr_handle := True, trace := trace s2 @ [EspIntrAlloc]\<rparr>
                        else s2)
              in Inr (s3\<lparr>gInitialized := True\<rparr>)))"

text \<open>
  The loop \<^verbatim>\<open>while (channel < FASTLED_RMT_MAX_CHANNELS && gNext < gNumControllers)\<close> of
  \<^verbatim>\<open>showPixels\<close>; it returns the final value of \<^verbatim>\<open>channel\<close>.
\<close>

function start_loop :: "nat \<Rightarrow> nat \<Rightarrow> state \<Rightarrow> error + (nat \<times> state)" where
  "start_loop M channel s =
     (if channel < M \<and> gNext s < gNumControllers s then
        (case startNext channel s of
           Inl e \<Rightarrow> Inl e
         | Inr s' \<Rightarrow> start_loop M (channel + 1) s')
      else Inr (channel, s))"
  by pat_completeness auto
termination
  by (relation "measure (\<lambda>(M, channel, s). M - channel)") auto

text \<open>The loop \<^verbatim>\<open>for (int i = 0; i < channel; i++)\<close> that starts the transmissions.\<close>

fun tx_start_loop :: "nat list \<Rightarrow> state \<Rightarrow> error + state" where
  "tx_start_loop [] s = Inr s"
| "tx_start_loop (i # rest) s =
     (case gControllers s i of
        None \<Rightarrow> Inl NullPointer
      | Some pController \<Rightarrow>
          tx_start_loop rest
            (s\<lparr>trace := trace s @ [RmtTxStart (mRMT_channel (heap s pController))]\<rparr>))"

text \<open>
  \<^verbatim>\<open>showPixels\<close> up to the point where it returns or waits: a caller that is not the last
  of the cycle returns (\<open>Returned\<close>); the last one has started the channels and stands at
  the second \<^verbatim>\<open>xSemaphoreTake\<close> (\<open>Waiting\<close>). \<open>showPixels_resume\<close> is the rest of the call,
  from that \<^verbatim>\<open>xSemaphoreTake\<close> on.
\<close>

datatype show_result = Returned state | Waiting state

definition showPixels :: "nat \<Rightarrow> nat \<Rightarrow> PixelController \<Rightarrow> state \<Rightarrow> error + show_result" where
  "showPixels M this pixels s =
     (case (if gNumStarted s = 0 then
              (case (if \<not> gInitialized s then initRMT M this s else Inr s) of
                 Inl e \<Rightarrow> Inl e
               | Inr s0 \<Rightarrow> xSemaphoreTake s0)
            else Inr s) of
        Inl e \<Rightarrow> Inl e
      | Inr s1 \<Rightarrow>
          (let s2 = s1\<lparr>heap := (heap s1)(this := (heap s1 this)\<lparr>mPixels := pixels\<rparr>)\<rparr>;
               s3 = s2\<lparr>gNumStarted := gNumStarted s2 + 1\<rparr>
           in if gNumStarted s3 = gNumControllers s3 then
                (case start_loop M 0 (s3\<lparr>gNext := 0\<rparr>) of
                   Inl e \<Rightarrow> Inl e
                 | Inr (channel, s4) \<Rightarrow>
                     (case tx_start_loop [0..<channel] s4 of
                        Inl e \<Rightarrow> Inl e
                      | Inr s5 \<Rightarrow> Inr (Waiting s5)))
              else Inr (Returned s3)))"

definition showPixels_resume :: "state \<Rightarrow> error + state" where
  "showPixels_resume s =
     (case xSemaphoreTake s of
        Inl e \<Rightarrow> Inl e
      | Inr s1 \<Rightarrow>
          (case xSemaphoreGive s1 of
             Inl e \<Rightarrow> Inl e
           | Inr s2 \<Rightarrow> Inr (s2\<lparr>gNumStarted := 0, gNumDone := 0, gNext := 0\<rparr>)))"

subsection \<open>Notions for the statements\<close>

definition state_of :: "show_result \<Rightarrow> state" where
  "state_of r = (case r of Returned s \<Rightarrow> s | Waiting s \<Rightarrow> s)"

text \<open>
  What registration fixes: the registry, its length, and for each controller object its
  pin and its two pulse descriptors.
\<close>

definition fixed_part ::
  "state \<Rightarrow> (nat \<rightharpoonup> nat) \<times> nat \<times> (nat \<Rightarrow> nat \<times> rmt_item32_t \<times> rmt_item32_t)" where
  "fixed_part s =
     (gControllers s, gNumControllers s,
      \<lambda>p. (mPin (heap s p), mZero (heap s p), mOne (heap s p)))"

text \<open>
  The registry holds a controller at every index below \<open>gNumControllers\<close>, and the
  semaphore exists.
\<close>

definition registry_ok :: "state \<Rightarrow> bool" where
  "registry_ok s \<longleftrightarrow>
     (\<forall>i \<in> {0..<gNumControllers s}. gControllers s i \<noteq> None) \<and> gTX_sem s \<noteq> None"

text \<open>
  Read off a trace: the pins given to channels by \<^verbatim>\<open>rmt_set_pin\<close> (one per start of a
  controller on a channel), the number of times the interrupt side gave the semaphore, and
  the channels on which a transmission was begun.
\<close>

definition set_pins :: "event list \<Rightarrow> (nat \<times> nat) list" where
  "set_pins tr = concat (map (\<lambda>e. case e of RmtSetPin ch pin \<Rightarrow> [(ch, pin)] | _ \<Rightarrow> []) tr)"

definition gives :: "event list \<Rightarrow> nat" where
  "gives tr = length (filter (\<lambda>e. e = SemGiveFromISR) tr)"

definition occupied :: "nat \<Rightarrow> state \<Rightarrow> nat" where
  "occupied M s = length (filter (\<lambda>c. gOnChannel s c \<noteq> None) [0..<M])"

text \<open>
  A show cycle is under way: the registry is in order and not empty, the strips started so
  far are the done ones and the ones on channels, and the semaphore is available iff every
  strip is done.
\<close>

definition cycle_inv :: "nat \<Rightarrow> state \<Rightarrow> bool" where
  "cycle_inv M s \<longleftrightarrow>
     registry_ok s \<and> 0 < gNumControllers s \<and> gNext s \<le> gNumControllers s
     \<and> gNumDone s + occupied M s = gNext s
     \<and> gTX_sem s = Some (gNumDone s = gNumControllers s)"

text \<open>
  What the interrupt side may do to a state, from \<open>s\<close> to \<open>s'\<close>: counters only grow, the
  trace only grows, the semaphore is given when \<open>gNumDone\<close> reaches the number of strips,
  and the pins set are those of the strips from \<open>gNext s\<close> up to \<open>gNext s'\<close>, in this order.
\<close>

definition progress :: "state \<Rightarrow> state \<Rightarrow> bool" where
  "progress s s' \<longleftrightarrow>
     fixed_part s' = fixed_part s \<and> gNumDone s \<le> gNumDone s' \<and> gNext s \<le> gNext s'
     \<and> gNumStarted s' = gNumStarted s
     \<and> (\<exists>tr. trace s' = trace s @ tr
           \<and> gives tr = (if gNumDone s < gNumControllers s \<and> gNumControllers s \<le> gNumDone s'
                          then 1 else 0)
           \<and> map snd (set_pins tr)
               = map (\<lambda>i. mPin (heap s (the (gControllers s i)))) [gNext s..<gNext s'])"

text \<open>
  The state in which the last strip of a cycle calls \<^verbatim>\<open>showPixels\<close>: the registry holds
  distinct controllers, all strips but one have called, none is done; the semaphore has
  been taken by the first caller (or, if this call is also the first, it is available, or
  not created yet before the first cycle ever), and once the driver is initialised no
  channel below \<open>M\<close> has an occupant.
\<close>

definition awaiting_last :: "nat \<Rightarrow> state \<Rightarrow> bool" where
  "awaiting_last M s \<longleftrightarrow>
     (\<forall>i \<in> {0..<gNumControllers s}. gControllers s i \<noteq> None)
     \<and> distinct (map (gControllers s) [0..<gNumControllers s])
     \<and> gNumStarted s + 1 = gNumControllers s
     \<and> gNumDone s = 0
     \<and> (if gNumStarted s = 0 then
           (if gInitialized s then gTX_sem s = Some True else gTX_sem s = None)
         else gInitialized s \<and> gTX_sem s = Some False)
     \<and> (gInitialized s \<longrightarrow> (\<forall>c \<in> {0..<M}. gOnChannel s c = None))"

text \<open>The events of the one-time set-up and of the semaphore on the task side.\<close>

fun is_setup :: "event \<Rightarrow> bool" where
  "is_setup (RmtConfig i pin) = True"
| "is_setup (RmtSetTxThrIntrEn i n) = True"
| "is_setup EspIntrAlloc = True"
| "is_setup SemCreateBinary = True"
| "is_setup SemGive = True"
| "is_setup SemTake = True"
| "is_setup e = False"

text \<open>
  The controller \<open>c\<close> as \<^verbatim>\<open>startOnChannel\<close> resets it for \<open>channel\<close>, before the first fill.
\<close>

definition reset_for :: "nat \<Rightarrow> controller \<Rightarrow> controller" where
  "reset_for channel c =
     c\<lparr>mRMT_channel := channel, mRMT_mem_ptr := RMTMEM_chan channel,
       mCurPulse := 0, mCurColor := 0\<rparr>"

text \<open>
  What a start of the controller \<open>c\<close> on \<open>channel\<close> leaves: the controller after the two
  priming fills, and the events of the start (the pin, the writes of the first and of the
  second fill, the interrupt enable).
\<close>

definition primed :: "nat \<Rightarrow> controller \<Rightarrow> controller" where
  "primed channel c = fst (fillNext (fst (fillNext (reset_for channel c))))"

definition start_events :: "nat \<Rightarrow> controller \<Rightarrow> event list" where
  "start_events channel c =
     RmtSetPin channel (mPin c)
     # mem_writes (snd (fillNext (reset_for channel c)))
     @ mem_writes (snd (fillNext (fst (fillNext (reset_for channel c)))))
     @ [RmtSetTxIntrEn channel]"

text \<open>
  States for the concrete instances below: two strips, on pins 5 and 6, registered on the
  initial state at a 240 MHz clock with the timing of a WS2812 (60, 150 and 90 cycles);
  then one show cycle begun on \<open>M\<close> channels, the first strip with one pixel, the second with
  none.
\<close>

definition blank_controller :: controller where
  "blank_controller =
     \<lparr>mRMT_channel = 0, mPin = 0,
      mZero = \<lparr>duration0 = 0, level0 = 0, duration1 = 0, level1 = 0\<rparr>,
      mOne = \<lparr>duration0 = 0, level0 = 0, duration1 = 0, level1 = 0\<rparr>,
      mPixels = [], mCurColor = 0, mCurPulse = 0, mRMT_mem_ptr = 0\<rparr>"

definition example_registered :: state where
  "example_registered =
     projr (init 240000000 6 60 150 90 1
       (projr (init 240000000 5 60 150 90 0 (initial_state (\<lambda>p. blank_controller)))))"

definition example_pending :: "nat \<Rightarrow> state" where
  "example_pending M = state_of (projr (showPixels M 0 [(255, 0, 1)] example_registered))"

definition example_started :: "nat \<Rightarrow> state" where
  "example_started M = state_of (projr (showPixels M 1 [] (example_pending M)))"

text \<open>The state after \<open>n\<close> registrations, of the strips \<open>0, ..., n - 1\<close> on pins \<open>5, 6, ...\<close>.\<close>

definition example_registry :: "nat \<Rightarrow> state" where
  "example_registry n =
     fold (\<lambda>p s. projr (init 240000000 (5 + p) 60 150 90 p s)) [0..<n]
       (initial_state (\<lambda>p. blank_controller))"

text \<open>
  One strip of five pixels, registered alone and shown on two channels: the state in which
  its call of \<^verbatim>\<open>showPixels\<close> waits, and the states after three, four and five threshold
  interrupts of channel 0.
\<close>

definition example_five_pixels :: state where
  "example_five_pixels =
     state_of (projr (showPixels 2 0 (replicate 5 (255, 0, 1)) (example_registry 1)))"

definition example_five_after :: "nat \<Rightarrow> state" where
  "example_five_after n = projr (interrupts 2 (replicate n (BIT 24)) example_five_pixels)"

text \<open>A controller for the concrete instances below: one pixel left, cursor at slot 40.\<close>

definition example_controller :: controller where
  "example_controller =
     \<lparr>mRMT_channel = 1, mPin = 5,
      mZero = \<lparr>duration0 = 10, level0 = 1, duration1 = 40, level1 = 0\<rparr>,
      mOne = \<lparr>duration0 = 35, level0 = 1, duration1 = 15, level1 = 0\<rparr>,
      mPixels = [(255, 0, 1)], mCurColor = 0, mCurPulse = 48, mRMT_mem_ptr = 112\<rparr>"

section \<open>The refill step\<close>

subsection \<open>The two loops\<close>

lemma upt_0_Suc_Cons: "[0..<Suc n] = 0 # map Suc [0..<n]"
  by (simp add: upt_conv_Cons map_Suc_upt del: upt_Suc)

lemma unat_cur: "k < 64 \<Longrightarrow> unat (of_nat k :: 16 word) = k"
  by (simp add: unat_of_nat take_bit_nat_eq_self)

lemma cur_wrap: "k < 64 \<Longrightarrow> ((of_nat k :: 16 word) + 1 = of_nat MAX_PULSES) = (k = 63)"
proof -
  assume k: "k < 64"
  have a: "unat ((of_nat k :: 16 word) + 1) = Suc k"
    using k by (simp add: unat_word_ariths unat_cur)
  have b: "unat (of_nat MAX_PULSES :: 16 word) = 64"
    by (simp add: MAX_PULSES_def)
  have "((of_nat k :: 16 word) + 1 = of_nat MAX_PULSES) = (Suc k = 64)"
    unfolding word_unat_eq_iff a b ..
  then show ?thesis by auto
qed

lemma msb_test: "((w :: 32 word) AND 0x80000000 \<noteq> 0) = bit w 31"
  using bit_iff_and_push_bit_not_eq_0 [of w 31] by simp

lemma bit_shifted: "j < 31 \<Longrightarrow> bit (push_bit 1 (w :: 32 word)) (31 - j) = bit w (31 - Suc j)"
  unfolding bit_push_bit_iff by (auto simp: possible_bit_def)

lemma bit_doubled: "j < 31 \<Longrightarrow> bit ((w :: 32 word) * 2) (31 - j) = bit w (30 - j)"
  using bit_shifted [of j w] by simp

text \<open>
  With the write pointer at slot \<open>k\<close> of the channel's block and the cursor equal to \<open>k\<close>,
  \<open>n\<close> iterations write the top \<open>n\<close> bits of \<open>pixel\<close>, highest first, to the slots
  \<open>k, k + 1, ...\<close> modulo 64.
\<close>

lemma fill_loop_run:
  "k < 64 \<Longrightarrow> n \<le> 32 \<Longrightarrow>
   fill_loop n one_val zero_val channel pixel (RMTMEM_chan channel + k) (of_nat k) =
     (map (\<lambda>j. (RMTMEM_chan channel + (k + j) mod 64,
                 if bit pixel (31 - j) then one_val else zero_val)) [0..<n],
      RMTMEM_chan channel + (k + n) mod 64, of_nat ((k + n) mod 64))"
proof (induction n arbitrary: k pixel)
  case 0
  then show ?case by simp
next
  case (Suc n)
  let ?k' = "Suc k mod 64"
  have k': "?k' < 64" by simp
  have n: "n \<le> 32" using Suc.prems by simp
  have next_state:
    "(if (of_nat k :: 16 word) + 1 = of_nat MAX_PULSES then (RMTMEM_chan channel, 0)
      else (RMTMEM_chan channel + k + 1, of_nat k + 1)) =
     (RMTMEM_chan channel + ?k', (of_nat ?k' :: 16 word))"
    unfolding cur_wrap [OF Suc.prems(1)] using Suc.prems(1) by (cases "k = 63") simp_all
  have vals: "map (\<lambda>j. (RMTMEM_chan channel + (?k' + j) mod 64,
                 if bit (push_bit 1 pixel) (31 - j) then one_val else zero_val)) [0..<n]
      = map ((\<lambda>j. (RMTMEM_chan channel + (k + j) mod 64,
                 if bit pixel (31 - j) then one_val else zero_val)) \<circ> Suc) [0..<n]"
    using Suc.prems(2) by (auto simp: bit_doubled mod_simps)
  have IH: "fill_loop n one_val zero_val channel (push_bit 1 pixel)
       (RMTMEM_chan channel + ?k') (of_nat ?k') =
     (map ((\<lambda>j. (RMTMEM_chan channel + (k + j) mod 64,
                 if bit pixel (31 - j) then one_val else zero_val)) \<circ> Suc) [0..<n],
      RMTMEM_chan channel + (k + Suc n) mod 64, of_nat ((k + Suc n) mod 64))"
    using Suc.IH [OF k' n, of "push_bit 1 pixel"] vals by (simp add: mod_simps)
  have step:
    "fill_loop (Suc n) one_val zero_val channel pixel (RMTMEM_chan channel + k) (of_nat k)
     = (case fill_loop n one_val zero_val channel (push_bit 1 pixel)
             (RMTMEM_chan channel + ?k') (of_nat ?k') of
          (ws, p, c) \<Rightarrow>
            ((RMTMEM_chan channel + k, if bit pixel 31 then one_val else zero_val) # ws, p, c))"
    unfolding fill_loop.simps Let_def msb_test next_state
    by (simp only: prod.case)
  show ?case
    unfolding step IH upt_0_Suc_Cons using Suc.prems(1) by simp
qed

text \<open>The 24 bits shifted out are the bits of the three bytes, each from bit 7 down.\<close>

lemma pixel_bit:
  "j < 24 \<Longrightarrow>
   bit (push_bit 24 (ucast (b0 :: 8 word)) OR push_bit 16 (ucast (b1 :: 8 word))
          OR push_bit 8 (ucast (b2 :: 8 word)) :: 32 word) (31 - j) =
     bit (if j < 8 then b0 else if j < 16 then b1 else b2) (7 - j mod 8)"
proof -
  assume j: "j < 24"
  consider "j < 8" | "8 \<le> j" "j < 16" | "16 \<le> j" "j < 24" using j by linarith
  then show ?thesis
  proof cases
    case 1
    then have "31 - j - 24 = 7 - j mod 8" by simp
    then show ?thesis using 1
      by (auto simp add: bit_or_iff bit_push_bit_iff bit_ucast_iff possible_bit_def
          dest: bit_imp_le_length)
  next
    case 2
    then have "j mod 8 = j - 8" by (simp add: le_mod_geq)
    then have "31 - j - 16 = 7 - j mod 8" using 2 by simp
    then show ?thesis using 2
      by (auto simp add: bit_or_iff bit_push_bit_iff bit_ucast_iff possible_bit_def
          dest: bit_imp_le_length)
  next
    case 3
    then have "j mod 8 = j - 16" by (simp add: le_mod_geq)
    then have "31 - j - 8 = 7 - j mod 8" using 3 by simp
    then show ?thesis using 3
      by (auto simp add: bit_or_iff bit_push_bit_iff bit_ucast_iff possible_bit_def
          dest: bit_imp_le_length)
  qed
qed

lemma zero_loop_run: "zero_loop n p = (map (\<lambda>j. (p + j, 0)) [0..<n], p + n)"
proof (induction n arbitrary: p)
  case 0
  show ?case by simp
next
  case (Suc n)
  show ?case using Suc.IH [of "p + 1"] by (simp add: upt_0_Suc_Cons del: upt_Suc)
qed

lemma slots_distinct: "k < 64 \<Longrightarrow> inj_on (\<lambda>j. b + (k + j) mod 64) {0..<24::nat}"
proof (rule inj_onI)
  fix x y assume k: "k < 64" and x: "x \<in> {0..<24::nat}" and y: "y \<in> {0..<24::nat}"
    and e: "b + (k + x) mod 64 = b + (k + y) mod 64"
  have m: "\<And>j. j < 24 \<Longrightarrow> (k + j) mod 64 = (if k + j < 64 then k + j else k + j - 64)"
    using k by (simp add: le_mod_geq)
  show "x = y" using e x y k by (simp add: m split: if_splits)
qed

subsection \<open>One call of \<^verbatim>\<open>fillNext\<close>\<close>

lemma fillNext_pixel_branch:
  assumes h: "has (mPixels c) 1"
    and cur: "unat (mCurPulse c) < 64"
    and ptr: "mRMT_mem_ptr c = RMTMEM_chan (mRMT_channel c) + unat (mCurPulse c)"
  shows "fillNext c =
     (c\<lparr>mPixels := tl (mPixels c),
        mCurPulse := of_nat ((unat (mCurPulse c) + 24) mod 64),
        mRMT_mem_ptr := RMTMEM_chan (mRMT_channel c) + (unat (mCurPulse c) + 24) mod 64\<rparr>,
      map (\<lambda>j. (RMTMEM_chan (mRMT_channel c) + (unat (mCurPulse c) + j) mod 64,
                 if bit (if j < 8 then loadAndScale0 (mPixels c)
                         else if j < 16 then loadAndScale1 (mPixels c)
                         else loadAndScale2 (mPixels c)) (7 - j mod 8)
                 then val (mOne c) else val (mZero c))) [0..<24])"
proof -
  let ?k = "unat (mCurPulse c)"
  let ?pixel = "push_bit 24 (ucast (loadAndScale0 (mPixels c)))
                OR push_bit 16 (ucast (loadAndScale1 (mPixels c)))
                OR push_bit 8 (ucast (loadAndScale2 (mPixels c))) :: 32 word"
  have loop: "fill_loop 24 (val (mOne c)) (val (mZero c)) (mRMT_channel c) ?pixel
            (mRMT_mem_ptr c) (mCurPulse c) =
     (map (\<lambda>j. (RMTMEM_chan (mRMT_channel c) + (?k + j) mod 64,
                 if bit ?pixel (31 - j) then val (mOne c) else val (mZero c))) [0..<24],
      RMTMEM_chan (mRMT_channel c) + (?k + 24) mod 64, of_nat ((?k + 24) mod 64))"
    using fill_loop_run [OF cur, of 24 "val (mOne c)" "val (mZero c)" "mRMT_channel c" ?pixel]
    by (simp add: ptr)
  have bits: "map (\<lambda>j. (RMTMEM_chan (mRMT_channel c) + (?k + j) mod 64,
                 if bit ?pixel (31 - j) then val (mOne c) else val (mZero c))) [0..<24]
      = map (\<lambda>j. (RMTMEM_chan (mRMT_channel c) + (?k + j) mod 64,
                 if bit (if j < 8 then loadAndScale0 (mPixels c)
                         else if j < 16 then loadAndScale1 (mPixels c)
                         else loadAndScale2 (mPixels c)) (7 - j mod 8)
                 then val (mOne c) else val (mZero c))) [0..<24]"
    by (rule map_cong [OF refl]) (simp only: pixel_bit atLeastLessThan_iff set_upt)
  show ?thesis
    unfolding fillNext_def Let_def loop bits using h
    by (simp add: advanceData_def stepDithering_def del: upt_Suc)
qed

lemma fillNext_exhausted:
  "\<not> has (mPixels c) 1 \<Longrightarrow>
   fillNext c = (c\<lparr>mRMT_mem_ptr := mRMT_mem_ptr c + 8\<rparr>,
                 map (\<lambda>j. (mRMT_mem_ptr c + j, 0)) [0..<8])"
  by (simp add: fillNext_def zero_loop_run del: upt_Suc zero_loop.simps)

lemma fillNext_exhausted_funpow:
  "\<not> has (mPixels c) 1 \<Longrightarrow>
   ((fst \<circ> fillNext) ^^ n) c = c\<lparr>mRMT_mem_ptr := mRMT_mem_ptr c + 8 * n\<rparr>"
proof (induction n)
  case 0
  show ?case by simp
next
  case (Suc n)
  then show ?case by (simp add: fillNext_exhausted)
qed

text \<open>
  Claim C4. A call of \<^verbatim>\<open>fillNext\<close> on a controller whose pixel source has a pixel left,
  with the cursor below \<open>MAX_PULSES\<close> and the write pointer at the cursor's slot of the
  channel's block (as \<^verbatim>\<open>startOnChannel\<close> sets them and every such call leaves them), writes
  exactly 24 slots: slot \<open>j\<close> of them is the one-pulse or the zero-pulse value according to
  bit \<open>7 - j mod 8\<close> of colour byte \<open>j div 8\<close>, at position \<open>(cursor + j) mod MAX_PULSES\<close>;
  the 24 slots are distinct; the cursor advances by 24 modulo \<open>MAX_PULSES\<close> and lies below
  \<open>MAX_PULSES\<close> afterwards; the source has advanced by one pixel.
\<close>

theorem fillNext_one_pixel:
  assumes "has (mPixels c) 1"
    and "unat (mCurPulse c) < MAX_PULSES"
    and "mRMT_mem_ptr c = RMTMEM_chan (mRMT_channel c) + unat (mCurPulse c)"
  shows "snd (fillNext c) =
           map (\<lambda>j. (RMTMEM_chan (mRMT_channel c) + (unat (mCurPulse c) + j) mod MAX_PULSES,
                 if bit (if j < 8 then loadAndScale0 (mPixels c)
                         else if j < 16 then loadAndScale1 (mPixels c)
                         else loadAndScale2 (mPixels c)) (7 - j mod 8)
                 then val (mOne c) else val (mZero c))) [0..<24]
       \<and> length (snd (fillNext c)) = 24
       \<and> distinct (map fst (snd (fillNext c)))
       \<and> unat (mCurPulse (fst (fillNext c))) = (unat (mCurPulse c) + 24) mod MAX_PULSES
       \<and> unat (mCurPulse (fst (fillNext c))) < MAX_PULSES
       \<and> mRMT_mem_ptr (fst (fillNext c)) =
           RMTMEM_chan (mRMT_channel c) + unat (mCurPulse (fst (fillNext c)))
       \<and> mPixels (fst (fillNext c)) = tl (mPixels c)"
proof -
  have cur: "unat (mCurPulse c) < 64" using assms(2) by (simp add: MAX_PULSES_def)
  note eq = fillNext_pixel_branch [OF assms(1) cur assms(3)]
  have d: "distinct (map fst (snd (fillNext c)))"
    unfolding eq snd_conv map_map
    by (simp only: distinct_map distinct_upt set_upt comp_def fst_conv slots_distinct [OF cur])
  have u: "unat (of_nat ((unat (mCurPulse c) + 24) mod 64) :: 16 word)
             = (unat (mCurPulse c) + 24) mod 64"
    by (rule unat_cur) simp
  show ?thesis
    using d u by (simp add: eq MAX_PULSES_def del: upt_Suc)
qed

theorem fillNext_one_pixel_witness:
  "has (mPixels example_controller) 1
   \<and> unat (mCurPulse example_controller) < MAX_PULSES
   \<and> mRMT_mem_ptr example_controller
       = RMTMEM_chan (mRMT_channel example_controller) + unat (mCurPulse example_controller)
   \<and> snd (fillNext example_controller) =
       [(112, 1015843), (113, 1015843), (114, 1015843), (115, 1015843), (116, 1015843), (117, 1015843), (118, 1015843), (119, 1015843), (120, 2654218), (121, 2654218), (122, 2654218), (123, 2654218), (124, 2654218), (125, 2654218), (126, 2654218), (127, 2654218), (64, 2654218), (65, 2654218), (66, 2654218), (67, 2654218), (68, 2654218), (69, 2654218), (70, 2654218), (71, 1015843)]
   \<and> unat (mCurPulse (fst (fillNext example_controller))) = 8"
proof -
  have h: "has (mPixels example_controller) 1"
    by (simp add: example_controller_def has_def)
  have c: "unat (mCurPulse example_controller) < MAX_PULSES"
    by (simp add: example_controller_def MAX_PULSES_def)
  have p: "mRMT_mem_ptr example_controller
       = RMTMEM_chan (mRMT_channel example_controller) + unat (mCurPulse example_controller)"
    by (simp add: example_controller_def RMTMEM_chan_def)
  show ?thesis
    using fillNext_one_pixel [OF h c p] h c p
    apply (simp add: example_controller_def RMTMEM_chan_def MAX_PULSES_def val_def
         loadAndScale0_def loadAndScale1_def loadAndScale2_def upt_conv_Cons del: upt_Suc)
    done
qed


text \<open>
  The hypotheses on the cursor and the write pointer hold after the reset in
  \<^verbatim>\<open>startOnChannel\<close> and at every later call that still finds a pixel.
\<close>

lemma fill_ready_reset:
  "unat (mCurPulse (c\<lparr>mRMT_mem_ptr := RMTMEM_chan (mRMT_channel c), mCurPulse := 0\<rparr>)) < MAX_PULSES
   \<and> mRMT_mem_ptr (c\<lparr>mRMT_mem_ptr := RMTMEM_chan (mRMT_channel c), mCurPulse := 0\<rparr>)
       = RMTMEM_chan (mRMT_channel c) + unat (0 :: 16 word)"
  by (simp add: MAX_PULSES_def)

lemma fill_ready_preserved:
  assumes "has (mPixels c) 1 \<longrightarrow> unat (mCurPulse c) < MAX_PULSES
             \<and> mRMT_mem_ptr c = RMTMEM_chan (mRMT_channel c) + unat (mCurPulse c)"
    and "has (mPixels (fst (fillNext c))) 1"
  shows "unat (mCurPulse (fst (fillNext c))) < MAX_PULSES
         \<and> mRMT_mem_ptr (fst (fillNext c))
             = RMTMEM_chan (mRMT_channel (fst (fillNext c))) + unat (mCurPulse (fst (fillNext c)))"
proof (cases "has (mPixels c) 1")
  case True
  then have cur: "unat (mCurPulse c) < 64"
    and ptr: "mRMT_mem_ptr c = RMTMEM_chan (mRMT_channel c) + unat (mCurPulse c)"
    using assms(1) by (simp_all add: MAX_PULSES_def)
  have u: "unat (of_nat ((unat (mCurPulse c) + 24) mod 64) :: 16 word)
             = (unat (mCurPulse c) + 24) mod 64"
    by (rule unat_cur) simp
  show ?thesis
    using u by (simp add: fillNext_pixel_branch [OF True cur ptr] MAX_PULSES_def)
next
  case False
  then show ?thesis using assms(2) by (simp add: fillNext_exhausted)
qed

text \<open>
  What holds of the calls that find the pixel source exhausted: each writes eight zeros
  from the write pointer on, and changes neither the cursor \<open>mCurPulse\<close> nor the source.
\<close>

lemma fillNext_exhausted_repeat:
  assumes "\<not> has (mPixels c) 1"
  shows "fillNext c = (c\<lparr>mRMT_mem_ptr := mRMT_mem_ptr c + 8\<rparr>,
                       map (\<lambda>j. (mRMT_mem_ptr c + j, 0)) [0..<8])
       \<and> (\<forall>n. length (snd (fillNext (((fst \<circ> fillNext) ^^ n) c))) = 8
              \<and> (\<forall>w \<in> set (snd (fillNext (((fst \<circ> fillNext) ^^ n) c))). snd w = 0)
              \<and> mCurPulse (((fst \<circ> fillNext) ^^ n) c) = mCurPulse c
              \<and> mPixels (((fst \<circ> fillNext) ^^ n) c) = mPixels c)"
proof -
  have "\<not> has (mPixels (c\<lparr>mRMT_mem_ptr := mRMT_mem_ptr c + 8 * n\<rparr>)) 1" for n
    using assms by simp
  then show ?thesis
    using assms by (auto simp: fillNext_exhausted fillNext_exhausted_funpow simp del: upt_Suc)
qed

text \<open>
  Claim C5 does not hold of the write position. A strip of five pixels, alone on channel 0:
  \<^verbatim>\<open>showPixels\<close> primes two pixels and three threshold interrupts fill the other three, which
  leaves the source exhausted with cursor and write pointer at slot 56. The fourth
  interrupt writes the eight zeros of the terminator to the slots 56 to 63. The fifth, in
  the same state of the source, writes eight zeros to the slots 64 to 71, the first slots
  of the block of channel 1: the write pointer has gone on past the terminator and past the
  64 slots of the channel, with no wrap-around, while \<open>mCurPulse\<close> still reads 56.
\<close>

theorem fillNext_terminator_spills:
  "gOnChannel example_five_pixels 0 = Some 0
   \<and> \<not> isl (interrupts 2 (replicate 5 (BIT 24)) example_five_pixels)
   \<and> \<not> has (mPixels (heap (example_five_after 3) 0)) 1
   \<and> mCurPulse (heap (example_five_after 3) 0) = 56
   \<and> mRMT_mem_ptr (heap (example_five_after 3) 0) = RMTMEM_chan 0 + 56
   \<and> drop (length (trace (example_five_after 3))) (trace (example_five_after 4))
       = mem_writes [(56, 0), (57, 0), (58, 0), (59, 0), (60, 0), (61, 0), (62, 0), (63, 0)]
   \<and> drop (length (trace (example_five_after 4))) (trace (example_five_after 5))
       = mem_writes [(64, 0), (65, 0), (66, 0), (67, 0), (68, 0), (69, 0), (70, 0), (71, 0)]
   \<and> mCurPulse (heap (example_five_after 5) 0) = 56
   \<and> mRMT_mem_ptr (heap (example_five_after 5) 0) = 72
   \<and> RMTMEM_chan 0 + MAX_PULSES = 64 \<and> RMTMEM_chan 1 = 64"
  by code_simp

text \<open>
  Claim C10. In the exhausted branch the write pointer advances by eight slots per call and
  the cursor stays: call number \<open>n\<close> (from 0) writes the slots
  \<open>mRMT_mem_ptr + 8 n, ..., mRMT_mem_ptr + 8 n + 7\<close>, with no wrap-around, so that from call
  \<open>MAX_PULSES div 8\<close> on every slot written lies beyond the channel's block.
\<close>

theorem fillNext_terminator_pointer:
  assumes "\<not> has (mPixels c) 1"
  shows "mRMT_mem_ptr (fst (fillNext c)) = mRMT_mem_ptr c + 8
       \<and> mCurPulse (fst (fillNext c)) = mCurPulse c
       \<and> (\<forall>n. map fst (snd (fillNext (((fst \<circ> fillNext) ^^ n) c)))
                = [mRMT_mem_ptr c + 8 * n ..< mRMT_mem_ptr c + 8 * n + 8]
              \<and> mRMT_mem_ptr (((fst \<circ> fillNext) ^^ Suc n) c) = mRMT_mem_ptr c + 8 * Suc n
              \<and> mCurPulse (((fst \<circ> fillNext) ^^ Suc n) c) = mCurPulse c)
       \<and> (\<forall>n a. RMTMEM_chan (mRMT_channel c) \<le> mRMT_mem_ptr c \<longrightarrow> MAX_PULSES \<le> 8 * n \<longrightarrow>
              a \<in> fst ` set (snd (fillNext (((fst \<circ> fillNext) ^^ n) c))) \<longrightarrow>
              RMTMEM_chan (mRMT_channel c) + MAX_PULSES \<le> a)"
proof -
  have ex: "\<not> has (mPixels (c\<lparr>mRMT_mem_ptr := mRMT_mem_ptr c + 8 * n\<rparr>)) 1" for n
    using assms by simp
  have addrs: "map fst (snd (fillNext (((fst \<circ> fillNext) ^^ n) c)))
                = [mRMT_mem_ptr c + 8 * n ..< mRMT_mem_ptr c + 8 * n + 8]" for n
  proof -
    have "snd (fillNext (((fst \<circ> fillNext) ^^ n) c))
            = map (\<lambda>j. (mRMT_mem_ptr c + 8 * n + j, 0)) [0..<8]"
      using ex [of n] assms
      by (simp add: fillNext_exhausted fillNext_exhausted_funpow del: upt_Suc)
    then have "map fst (snd (fillNext (((fst \<circ> fillNext) ^^ n) c)))
            = map (\<lambda>j. mRMT_mem_ptr c + 8 * n + j) [0..<8]"
      by (simp only: map_map comp_def fst_conv)
    then show ?thesis
      using map_add_upt [of "mRMT_mem_ptr c + 8 * n" 8] by (simp add: add.commute)
  qed
  have beyond: "RMTMEM_chan (mRMT_channel c) + MAX_PULSES \<le> a"
    if "RMTMEM_chan (mRMT_channel c) \<le> mRMT_mem_ptr c" "MAX_PULSES \<le> 8 * n"
      "a \<in> fst ` set (snd (fillNext (((fst \<circ> fillNext) ^^ n) c)))" for n a
  proof -
    have "a \<in> set [mRMT_mem_ptr c + 8 * n ..< mRMT_mem_ptr c + 8 * n + 8]"
      using that(3) addrs [of n, symmetric] by simp
    then show ?thesis using that(1,2) by simp
  qed
  show ?thesis
    using assms addrs beyond
    by (simp add: fillNext_exhausted fillNext_exhausted_funpow [OF assms] del: upt_Suc funpow.simps)
qed

theorem fillNext_terminator_pointer_witness:
  "\<not> has (mPixels (example_controller\<lparr>mPixels := []\<rparr>)) 1
   \<and> mRMT_mem_ptr (fst (fillNext (example_controller\<lparr>mPixels := []\<rparr>))) = 120
   \<and> mCurPulse (fst (fillNext (example_controller\<lparr>mPixels := []\<rparr>))) = 48
   \<and> map fst (snd (fillNext (((fst \<circ> fillNext) ^^ 2) (example_controller\<lparr>mPixels := []\<rparr>))))
       = [128 ..< 136]"
proof -
  have h: "\<not> has (mPixels (example_controller\<lparr>mPixels := []\<rparr>)) 1"
    by (simp add: has_def)
  have "mRMT_mem_ptr (example_controller\<lparr>mPixels := []\<rparr>) = 112"
    by (simp add: example_controller_def)
  moreover have "mCurPulse (example_controller\<lparr>mPixels := []\<rparr>) = 48"
    by (simp add: example_controller_def)
  ultimately show ?thesis
    using fillNext_terminator_pointer [OF h] h
    by simp
qed

section \<open>The scheduler and the interrupt handler\<close>

subsection \<open>Effects of the operations\<close>

lemma fillNext_fixed:
  "mPin (fst (fillNext c)) = mPin c \<and> mZero (fst (fillNext c)) = mZero c
   \<and> mOne (fst (fillNext c)) = mOne c \<and> mRMT_channel (fst (fillNext c)) = mRMT_channel c"
  by (simp add: fillNext_def Let_def split: prod.splits)

lemma call_fillNext_eq:
  "call_fillNext p s =
     s\<lparr>heap := (heap s)(p := fst (fillNext (heap s p))),
       trace := trace s @ mem_writes (snd (fillNext (heap s p)))\<rparr>"
  by (simp add: call_fillNext_def split: prod.splits)

lemma set_pins_append [simp]: "set_pins (a @ b) = set_pins a @ set_pins b"
  by (simp add: set_pins_def)

lemma gives_append [simp]: "gives (a @ b) = gives a + gives b"
  by (simp add: gives_def)

lemma set_pins_mem_writes [simp]: "set_pins (mem_writes ws) = []"
  by (induction ws) (auto simp: set_pins_def mem_writes_def)

lemma gives_mem_writes [simp]: "gives (mem_writes ws) = 0"
  by (auto simp: gives_def mem_writes_def filter_empty_conv)

lemma set_pins_simps [simp]:
  "set_pins [] = []"
  "set_pins (RmtSetPin ch pin # tr) = (ch, pin) # set_pins tr"
  "set_pins (RmtMemWrite a v # tr) = set_pins tr"
  "set_pins (RmtSetTxIntrEn ch # tr) = set_pins tr"
  "set_pins (RmtTxStart ch # tr) = set_pins tr"
  "set_pins (GpioMatrixOut pin # tr) = set_pins tr"
  "set_pins (SemGiveFromISR # tr) = set_pins tr"
  by (simp_all add: set_pins_def)

lemma gives_simps [simp]:
  "gives [] = 0"
  "gives (SemGiveFromISR # tr) = Suc (gives tr)"
  "gives (RmtSetPin ch pin # tr) = gives tr"
  "gives (RmtMemWrite a v # tr) = gives tr"
  "gives (RmtSetTxIntrEn ch # tr) = gives tr"
  "gives (RmtTxStart ch # tr) = gives tr"
  "gives (GpioMatrixOut pin # tr) = gives tr"
  by (simp_all add: gives_def)

text \<open>The trace that a start on a channel adds, for the controller as it is before.\<close>

lemma startOnChannel_eq:
  "startOnChannel p ch s =
     (let c0 = (heap s p)\<lparr>mRMT_channel := ch, mRMT_mem_ptr := RMTMEM_chan ch,
                           mCurPulse := 0, mCurColor := 0\<rparr>;
          c1 = fst (fillNext c0);
          c2 = fst (fillNext c1)
      in s\<lparr>heap := (heap s)(p := c2),
            gOnChannel := (gOnChannel s)(ch \<mapsto> p),
            trace := trace s @ RmtSetPin ch (mPin (heap s p))
                       # mem_writes (snd (fillNext c0)) @ mem_writes (snd (fillNext c1))
                       @ [RmtSetTxIntrEn ch]\<rparr>)"
  by (simp add: startOnChannel_def call_fillNext_eq Let_def)

lemma startNext_eq:
  "gNext s < gNumControllers s \<Longrightarrow> gControllers s (gNext s) = Some p \<Longrightarrow>
   startNext ch s = Inr ((startOnChannel p ch s)\<lparr>gNext := gNext s + 1\<rparr>)"
  by (simp add: startNext_def startOnChannel_eq Let_def)


lemma registry_ok_cong:
  "gControllers s' = gControllers s \<Longrightarrow> gNumControllers s' = gNumControllers s \<Longrightarrow>
   gTX_sem s' \<noteq> None \<Longrightarrow> registry_ok s \<Longrightarrow> registry_ok s'"
  by (simp add: registry_ok_def)

text \<open>\<^verbatim>\<open>doneOnChannel\<close>, branch by branch.\<close>

lemma doneOnChannel_last:
  assumes "gOnChannel s ch = Some p" and "gNumDone s + 1 = gNumControllers s"
    and "gTX_sem s = Some b"
  shows "doneOnChannel ch s =
     Inr (s\<lparr>gOnChannel := (gOnChannel s)(ch := None), gNumDone := gNumDone s + 1,
             gTX_sem := Some True,
             trace := trace s @ [GpioMatrixOut (mPin (heap s p)), SemGiveFromISR]\<rparr>)"
  using assms by (simp add: doneOnChannel_def xSemaphoreGiveFromISR_def Let_def)

lemma doneOnChannel_next:
  assumes "gOnChannel s ch = Some p" and "gNumDone s + 1 \<noteq> gNumControllers s"
    and "gNext s < gNumControllers s" and "gControllers s (gNext s) = Some q"
  shows "doneOnChannel ch s =
     (let s1 = startOnChannel q ch
                 (s\<lparr>gOnChannel := (gOnChannel s)(ch := None), gNumDone := gNumDone s + 1,
                     trace := trace s @ [GpioMatrixOut (mPin (heap s p))]\<rparr>)
      in Inr (s1\<lparr>gNext := gNext s + 1,
                  trace := trace s1 @ [RmtTxStart (mRMT_channel (heap s1 p))]\<rparr>))"
  using assms by (simp add: doneOnChannel_def startNext_def Let_def startOnChannel_eq)

lemma doneOnChannel_idle:
  assumes "gOnChannel s ch = Some p" and "gNumDone s + 1 \<noteq> gNumControllers s"
    and "\<not> gNext s < gNumControllers s"
  shows "doneOnChannel ch s =
     Inr (s\<lparr>gOnChannel := (gOnChannel s)(ch := None), gNumDone := gNumDone s + 1,
             trace := trace s @ [GpioMatrixOut (mPin (heap s p))]\<rparr>)"
  using assms by (simp add: doneOnChannel_def Let_def)

lemma fixed_part_startOnChannel: "fixed_part (startOnChannel p ch s) = fixed_part s"
  using fillNext_fixed
  by (auto simp: startOnChannel_eq fixed_part_def Let_def fun_eq_iff)

lemma fixed_part_call_fillNext: "fixed_part (call_fillNext p s) = fixed_part s"
  using fillNext_fixed [of "heap s p"]
  by (auto simp: call_fillNext_eq fixed_part_def fun_eq_iff)

text \<open>
  One channel's share of the interrupt handler returns, keeps the registry as it is and
  never lowers a counter.
\<close>

lemma doneOnChannel_step:
  assumes ok: "registry_ok s" and occ: "gOnChannel s ch = Some p"
  shows "\<exists>s'. doneOnChannel ch s = Inr s' \<and> registry_ok s' \<and> fixed_part s' = fixed_part s
           \<and> gNumDone s' = gNumDone s + 1 \<and> gNext s \<le> gNext s'
           \<and> gNumStarted s' = gNumStarted s \<and> RMT_int_clr s' = RMT_int_clr s
           \<and> (\<forall>c. c \<noteq> ch \<longrightarrow> gOnChannel s' c = gOnChannel s c)"
proof -
  obtain b where sem: "gTX_sem s = Some b" using ok by (auto simp: registry_ok_def)
  consider (final) "gNumDone s + 1 = gNumControllers s"
    | (more) "gNumDone s + 1 \<noteq> gNumControllers s" "gNext s < gNumControllers s"
    | (none) "gNumDone s + 1 \<noteq> gNumControllers s" "\<not> gNext s < gNumControllers s"
    by blast
  then show ?thesis
  proof cases
    case final
    show ?thesis
      using ok by (auto simp: doneOnChannel_last [OF occ final sem] registry_ok_def fixed_part_def)
  next
    case more
    then have "gNext s \<in> {0..<gNumControllers s}" by simp
    then obtain q where q: "gControllers s (gNext s) = Some q"
      using ok unfolding registry_ok_def by blast
    show ?thesis
      using ok sem
      by (simp add: doneOnChannel_next [OF occ more q] Let_def startOnChannel_eq
          registry_ok_def fixed_part_def fun_eq_iff fillNext_fixed)
  next
    case none
    show ?thesis
      using ok by (simp add: doneOnChannel_idle [OF occ none] registry_ok_def fixed_part_def)
  qed
qed

lemma BIT_test: "((w :: 32 word) AND BIT n \<noteq> 0) = bit w n"
  by (simp add: BIT_def bit_iff_and_push_bit_not_eq_0)

lemma bit_or_BIT: "bit (w OR BIT n) m = (bit w m \<or> (m = n \<and> n < 32))"
  by (auto simp: BIT_def bit_or_iff bit_exp_iff possible_bit_def)

lemma handle_channel_step:
  assumes ok: "registry_ok s"
  shows "\<exists>s'. handle_channel st ch s = Inr s' \<and> registry_ok s' \<and> fixed_part s' = fixed_part s
           \<and> gNumDone s \<le> gNumDone s' \<and> gNext s \<le> gNext s'
           \<and> gNumStarted s' = gNumStarted s
           \<and> (\<forall>c. c \<noteq> ch \<longrightarrow> gOnChannel s' c = gOnChannel s c)
           \<and> (\<forall>m. m \<noteq> ch * 3 \<longrightarrow> m \<noteq> ch + 24 \<longrightarrow>
                  bit (RMT_int_clr s') m = bit (RMT_int_clr s) m)"
proof (cases "gOnChannel s ch")
  case None
  then show ?thesis using ok by (simp add: handle_channel_def)
next
  case (Some p)
  show ?thesis
  proof (cases "bit st (ch + 24)")
    case True
    let ?s = "s\<lparr>RMT_int_clr := RMT_int_clr s OR BIT (ch + 24)\<rparr>"
    have eq: "handle_channel st ch s = Inr (call_fillNext p ?s)"
      using Some True by (simp add: handle_channel_def BIT_test)
    have a: "registry_ok (call_fillNext p ?s)"
      using ok by (simp add: call_fillNext_eq registry_ok_def)
    have b: "fixed_part (call_fillNext p ?s) = fixed_part s"
      by (simp add: fixed_part_call_fillNext) (simp add: fixed_part_def)
    have c: "gNumDone (call_fillNext p ?s) = gNumDone s" "gNext (call_fillNext p ?s) = gNext s"
      "gNumStarted (call_fillNext p ?s) = gNumStarted s"
      "gOnChannel (call_fillNext p ?s) = gOnChannel s"
      "RMT_int_clr (call_fillNext p ?s) = RMT_int_clr s OR BIT (ch + 24)"
      by (simp_all add: call_fillNext_eq)
    show ?thesis
      unfolding eq using a b by (simp add: c bit_or_BIT)
  next
    case False
    show ?thesis
    proof (cases "bit st (ch * 3)")
      case True
      let ?s = "s\<lparr>RMT_int_clr := RMT_int_clr s OR BIT (ch * 3)\<rparr>"
      have ok': "registry_ok ?s" using ok by (simp add: registry_ok_def)
      have occ: "gOnChannel ?s ch = Some p" using Some by simp
      from doneOnChannel_step [OF ok' occ] obtain s' where
        "doneOnChannel ch ?s = Inr s'" "registry_ok s'" "fixed_part s' = fixed_part ?s"
        "gNumDone s' = gNumDone ?s + 1" "gNext ?s \<le> gNext s'" "gNumStarted s' = gNumStarted ?s"
        "RMT_int_clr s' = RMT_int_clr ?s" "\<forall>c. c \<noteq> ch \<longrightarrow> gOnChannel s' c = gOnChannel ?s c"
        by blast
      then show ?thesis
        using Some False True
        by (simp add: handle_channel_def BIT_test bit_or_BIT fixed_part_def)
    next
      case F2: False
      then show ?thesis using Some False ok by (simp add: handle_channel_def BIT_test)
    qed
  qed
qed

subsection \<open>Lifting a step property to the loops\<close>

lemma channel_loop_append:
  "channel_loop st (xs @ ys) s =
     (case channel_loop st xs s of Inl e \<Rightarrow> Inl e | Inr s' \<Rightarrow> channel_loop st ys s')"
  by (induction xs arbitrary: s) (auto split: sum.splits)

lemma channel_loop_lift:
  assumes step: "\<And>c s. c \<in> set cs \<Longrightarrow> I s \<Longrightarrow>
                   \<exists>s'. handle_channel st c s = Inr s' \<and> I s' \<and> R s s'"
    and refl: "\<And>s. R s s"
    and trans: "\<And>a b c. R a b \<Longrightarrow> R b c \<Longrightarrow> R a c"
    and I: "I s"
  shows "\<exists>s'. channel_loop st cs s = Inr s' \<and> I s' \<and> R s s'"
  using step I
proof (induction cs arbitrary: s)
  case Nil
  then show ?case using refl by simp
next
  case (Cons c cs)
  obtain s1 where s1: "handle_channel st c s = Inr s1" "I s1" "R s s1"
    using Cons.prems(1) [of c s] Cons.prems(2) by auto
  have "\<exists>s'. channel_loop st cs s1 = Inr s' \<and> I s' \<and> R s1 s'"
    using Cons.IH [of s1] Cons.prems(1) s1(2) by simp
  then show ?case using s1 trans by (auto)
qed

lemma interrupts_lift:
  assumes step: "\<And>st s. I s \<Longrightarrow> \<exists>s'. interruptHandler M st s = Inr s' \<and> I s' \<and> R s s'"
    and refl: "\<And>s. R s s"
    and trans: "\<And>a b c. R a b \<Longrightarrow> R b c \<Longrightarrow> R a c"
    and I: "I s"
  shows "\<exists>s'. interrupts M sts s = Inr s' \<and> I s' \<and> R s s'"
  using I
proof (induction sts arbitrary: s)
  case Nil
  then show ?case using refl by simp
next
  case (Cons st sts)
  obtain s1 where s1: "interruptHandler M st s = Inr s1" "I s1" "R s s1"
    using step [OF Cons.prems] by auto
  have "\<exists>s'. interrupts M sts s1 = Inr s' \<and> I s' \<and> R s1 s'"
    using Cons.IH [OF s1(2)] .
  then show ?case using s1 trans by auto
qed

text \<open>
  The shares of the other channels leave a channel's occupant and its two interrupt bits
  alone.
\<close>

lemma channel_loop_others:
  assumes ok: "registry_ok s" and notin: "c \<notin> set cs" and c: "c < 8" and cs: "\<forall>x \<in> set cs. x < 8"
  shows "\<exists>s'. channel_loop st cs s = Inr s' \<and> registry_ok s'
            \<and> (gOnChannel s' c = gOnChannel s c
               \<and> bit (RMT_int_clr s') (c * 3) = bit (RMT_int_clr s) (c * 3)
               \<and> bit (RMT_int_clr s') (c + 24) = bit (RMT_int_clr s) (c + 24)
               \<and> gNumDone s \<le> gNumDone s')"
proof (rule channel_loop_lift [where I = registry_ok])
  fix ch s assume ch: "ch \<in> set cs" and ok: "registry_ok s"
  have ne: "ch \<noteq> c" "c * 3 \<noteq> ch * 3" "c * 3 \<noteq> ch + 24" "c + 24 \<noteq> ch * 3" "c + 24 \<noteq> ch + 24"
    using ch notin c cs by auto
  from handle_channel_step [OF ok, of st ch] ne
  show "\<exists>s'. handle_channel st ch s = Inr s' \<and> registry_ok s'
            \<and> (gOnChannel s' c = gOnChannel s c
               \<and> bit (RMT_int_clr s') (c * 3) = bit (RMT_int_clr s) (c * 3)
               \<and> bit (RMT_int_clr s') (c + 24) = bit (RMT_int_clr s) (c + 24)
               \<and> gNumDone s \<le> gNumDone s')"
    by (metis)
qed (use ok in auto)


subsection \<open>One invocation of the interrupt handler\<close>

lemma handle_channel_own:
  assumes ok: "registry_ok s" and occ: "gOnChannel s c = Some p"
  shows "\<exists>s'. handle_channel st c s = Inr s' \<and> registry_ok s'
          \<and> (bit st (c + 24) \<longrightarrow>
                s' = call_fillNext p (s\<lparr>RMT_int_clr := RMT_int_clr s OR BIT (c + 24)\<rparr>))
          \<and> (\<not> bit st (c + 24) \<longrightarrow> bit st (c * 3) \<longrightarrow>
                doneOnChannel c (s\<lparr>RMT_int_clr := RMT_int_clr s OR BIT (c * 3)\<rparr>) = Inr s'
                \<and> RMT_int_clr s' = RMT_int_clr s OR BIT (c * 3)
                \<and> gNumDone s' = gNumDone s + 1)
          \<and> (\<not> bit st (c + 24) \<longrightarrow> \<not> bit st (c * 3) \<longrightarrow> s' = s)"
proof -
  let ?s = "s\<lparr>RMT_int_clr := RMT_int_clr s OR BIT (c * 3)\<rparr>"
  have ok': "registry_ok ?s" using ok by (simp add: registry_ok_def)
  have occ': "gOnChannel ?s c = Some p" using occ by simp
  obtain s2 where s2: "doneOnChannel c ?s = Inr s2" "registry_ok s2"
      "gNumDone s2 = gNumDone ?s + 1" "RMT_int_clr s2 = RMT_int_clr ?s"
    using doneOnChannel_step [OF ok' occ'] by blast
  obtain s1 where s1: "handle_channel st c s = Inr s1" "registry_ok s1"
    using handle_channel_step [OF ok, of st c] by blast
  show ?thesis
    using occ s1 s2 by (auto simp: handle_channel_def BIT_test)
qed

lemma interruptHandler_split:
  assumes ok: "registry_ok s" and M: "M \<le> 8" and c: "c < M"
  shows "\<exists>s1 s2 s'. channel_loop st [0..<c] s = Inr s1 \<and> handle_channel st c s1 = Inr s2
            \<and> channel_loop st [Suc c..<M] s2 = Inr s' \<and> interruptHandler M st s = Inr s'
            \<and> registry_ok s1 \<and> registry_ok s2
            \<and> gOnChannel s1 c = gOnChannel s c
            \<and> bit (RMT_int_clr s1) (c * 3) = bit (RMT_int_clr s) (c * 3)
            \<and> bit (RMT_int_clr s1) (c + 24) = bit (RMT_int_clr s) (c + 24)
            \<and> gNumDone s \<le> gNumDone s1
            \<and> gOnChannel s' c = gOnChannel s2 c
            \<and> bit (RMT_int_clr s') (c * 3) = bit (RMT_int_clr s2) (c * 3)
            \<and> bit (RMT_int_clr s') (c + 24) = bit (RMT_int_clr s2) (c + 24)
            \<and> gNumDone s2 \<le> gNumDone s'"
proof -
  have c8: "c < 8" using M c by simp
  have upt: "[0..<M] = [0..<c] @ c # [Suc c..<M]"
    using c by (metis le_add1 le_add_same_cancel1 less_imp_add_positive upt_add_eq_append upt_conv_Cons)
  obtain s1 where s1: "channel_loop st [0..<c] s = Inr s1" "registry_ok s1"
      "gOnChannel s1 c = gOnChannel s c"
      "bit (RMT_int_clr s1) (c * 3) = bit (RMT_int_clr s) (c * 3)"
      "bit (RMT_int_clr s1) (c + 24) = bit (RMT_int_clr s) (c + 24)"
      "gNumDone s \<le> gNumDone s1"
    using channel_loop_others [OF ok _ c8, of "[0..<c]" st] c8 by auto
  obtain s2 where s2: "handle_channel st c s1 = Inr s2" "registry_ok s2"
    using handle_channel_step [OF s1(2), of st c] by blast
  obtain s' where s': "channel_loop st [Suc c..<M] s2 = Inr s'"
      "gOnChannel s' c = gOnChannel s2 c"
      "bit (RMT_int_clr s') (c * 3) = bit (RMT_int_clr s2) (c * 3)"
      "bit (RMT_int_clr s') (c + 24) = bit (RMT_int_clr s2) (c + 24)"
      "gNumDone s2 \<le> gNumDone s'"
    using channel_loop_others [OF s2(2) _ c8, of "[Suc c..<M]" st] M by auto
  have "interruptHandler M st s = Inr s'"
    unfolding interruptHandler_def upt channel_loop_append using s1(1) s2(1) s'(1) by simp
  then show ?thesis using s1 s2 s' by blast
qed

text \<open>
  Claim C2, as amended. In one invocation of the interrupt handler (on at most 8 channels)
  the share of an occupied channel \<open>c\<close> is one event. If the threshold bit \<open>c + 24\<close> is
  set in the status word, whether or not the completion bit \<open>3 c\<close> is set too, the share is
  the refill step alone: the threshold bit is acknowledged and \<^verbatim>\<open>fillNext\<close> is called; the
  occupant stays on the channel and the completion bit is not acknowledged by this
  invocation. If the threshold bit is clear and the completion bit is set, the share is
  \<^verbatim>\<open>doneOnChannel\<close>: the completion bit is acknowledged and \<open>gNumDone\<close> grows.
\<close>

theorem interruptHandler_one_event:
  assumes "registry_ok s" and "M \<le> 8" and "c < M" and "gOnChannel s c = Some p"
  shows "\<exists>s1 s2 s'. channel_loop st [0..<c] s = Inr s1 \<and> handle_channel st c s1 = Inr s2
            \<and> channel_loop st [Suc c..<M] s2 = Inr s' \<and> interruptHandler M st s = Inr s'
            \<and> gOnChannel s1 c = Some p
            \<and> (bit st (c + 24) \<longrightarrow>
                 s2 = call_fillNext p (s1\<lparr>RMT_int_clr := RMT_int_clr s1 OR BIT (c + 24)\<rparr>)
                 \<and> gOnChannel s' c = Some p
                 \<and> bit (RMT_int_clr s') (c + 24)
                 \<and> bit (RMT_int_clr s') (c * 3) = bit (RMT_int_clr s) (c * 3))
            \<and> (\<not> bit st (c + 24) \<longrightarrow> bit st (c * 3) \<longrightarrow>
                 doneOnChannel c (s1\<lparr>RMT_int_clr := RMT_int_clr s1 OR BIT (c * 3)\<rparr>) = Inr s2
                 \<and> bit (RMT_int_clr s') (c * 3)
                 \<and> bit (RMT_int_clr s') (c + 24) = bit (RMT_int_clr s) (c + 24)
                 \<and> gNumDone s < gNumDone s')"
proof -
  have c32: "c + 24 < 32" "c * 3 < 32" "c * 3 \<noteq> c + 24" using assms(2,3) by auto
  obtain s1 s2 s' where r: "channel_loop st [0..<c] s = Inr s1" "handle_channel st c s1 = Inr s2"
      "channel_loop st [Suc c..<M] s2 = Inr s'" "interruptHandler M st s = Inr s'"
      "registry_ok s1" "registry_ok s2"
      "gOnChannel s1 c = gOnChannel s c"
      "bit (RMT_int_clr s1) (c * 3) = bit (RMT_int_clr s) (c * 3)"
      "bit (RMT_int_clr s1) (c + 24) = bit (RMT_int_clr s) (c + 24)"
      "gNumDone s \<le> gNumDone s1"
      "gOnChannel s' c = gOnChannel s2 c"
      "bit (RMT_int_clr s') (c * 3) = bit (RMT_int_clr s2) (c * 3)"
      "bit (RMT_int_clr s') (c + 24) = bit (RMT_int_clr s2) (c + 24)"
      "gNumDone s2 \<le> gNumDone s'"
    using interruptHandler_split [OF assms(1-3), of st] by blast
  have occ1: "gOnChannel s1 c = Some p" using r(7) assms(4) by simp
  from handle_channel_own [OF r(5) occ1, of st] r(2)
  have own: "bit st (c + 24) \<longrightarrow>
                s2 = call_fillNext p (s1\<lparr>RMT_int_clr := RMT_int_clr s1 OR BIT (c + 24)\<rparr>)"
    "\<not> bit st (c + 24) \<longrightarrow> bit st (c * 3) \<longrightarrow>
                doneOnChannel c (s1\<lparr>RMT_int_clr := RMT_int_clr s1 OR BIT (c * 3)\<rparr>) = Inr s2
                \<and> RMT_int_clr s2 = RMT_int_clr s1 OR BIT (c * 3)
                \<and> gNumDone s2 = gNumDone s1 + 1"
    by auto
  have fill: "gOnChannel s' c = Some p \<and> bit (RMT_int_clr s') (c + 24)
                 \<and> bit (RMT_int_clr s') (c * 3) = bit (RMT_int_clr s) (c * 3)"
    if "bit st (c + 24)"
    using own(1) that r(8,11,12,13) occ1 c32 by (simp add: call_fillNext_eq bit_or_BIT)
  have don: "bit (RMT_int_clr s') (c * 3)
                 \<and> bit (RMT_int_clr s') (c + 24) = bit (RMT_int_clr s) (c + 24)
                 \<and> gNumDone s < gNumDone s'"
    if "\<not> bit st (c + 24)" "bit st (c * 3)"
    using own(2) that r(9,10,12,13,14) c32 by (simp add: bit_or_BIT)
  show ?thesis
    using r(1-4) occ1 own fill don by blast
qed

text \<open>
  Claim C6, as amended. In one invocation of the interrupt handler the share of a channel
  with no occupant is nothing: the handler returns without an error, the channel stays
  empty, and the two interrupt bits of the channel are not acknowledged (their bits in
  \<^verbatim>\<open>RMT.int_clr\<close> are as before), whatever the status word.
\<close>

theorem interruptHandler_empty_channel:
  assumes "registry_ok s" and "M \<le> 8" and "c < M" and "gOnChannel s c = None"
  shows "\<exists>s1 s'. channel_loop st [0..<c] s = Inr s1 \<and> handle_channel st c s1 = Inr s1
            \<and> channel_loop st [Suc c..<M] s1 = Inr s' \<and> interruptHandler M st s = Inr s'
            \<and> gOnChannel s' c = None
            \<and> bit (RMT_int_clr s') (c * 3) = bit (RMT_int_clr s) (c * 3)
            \<and> bit (RMT_int_clr s') (c + 24) = bit (RMT_int_clr s) (c + 24)"
proof -
  obtain s1 s2 s' where r: "channel_loop st [0..<c] s = Inr s1" "handle_channel st c s1 = Inr s2"
      "channel_loop st [Suc c..<M] s2 = Inr s'" "interruptHandler M st s = Inr s'"
      "gOnChannel s1 c = gOnChannel s c"
      "bit (RMT_int_clr s1) (c * 3) = bit (RMT_int_clr s) (c * 3)"
      "bit (RMT_int_clr s1) (c + 24) = bit (RMT_int_clr s) (c + 24)"
      "gOnChannel s' c = gOnChannel s2 c"
      "bit (RMT_int_clr s') (c * 3) = bit (RMT_int_clr s2) (c * 3)"
      "bit (RMT_int_clr s') (c + 24) = bit (RMT_int_clr s2) (c + 24)"
    using interruptHandler_split [OF assms(1-3), of st] by blast
  have e: "gOnChannel s1 c = None" using r(5) assms(4) by simp
  then have "handle_channel st c s1 = Inr s1" by (simp add: handle_channel_def)
  then have "s2 = s1" using r(2) by simp
  then show ?thesis using r e by auto
qed

text \<open>
  Claim C2 as stated fails: with both bits of the occupied channel 0 set, the invocation
  acknowledges the threshold bit only; the occupant is still on the channel, \<open>gNumDone\<close> is
  as before and the pin has not been released.
\<close>

theorem interruptHandler_both_bits_counterexample:
  "gOnChannel (example_started 3) 0 = Some 0
   \<and> bit (BIT 0 OR BIT 24) (0 + 24) \<and> bit (BIT 0 OR BIT 24) (0 * 3)
   \<and> \<not> isl (interruptHandler 3 (BIT 0 OR BIT 24) (example_started 3))
   \<and> gOnChannel (projr (interruptHandler 3 (BIT 0 OR BIT 24) (example_started 3))) 0 = Some 0
   \<and> gNumDone (projr (interruptHandler 3 (BIT 0 OR BIT 24) (example_started 3)))
       = gNumDone (example_started 3)
   \<and> RMT_int_clr (projr (interruptHandler 3 (BIT 0 OR BIT 24) (example_started 3))) = BIT 24
   \<and> GpioMatrixOut 5 \<notin> set (trace (projr (interruptHandler 3 (BIT 0 OR BIT 24) (example_started 3))))"
  by code_simp

text \<open>
  Claim C6 as stated fails: both bits of the empty channel 2 are pending, and the
  invocation acknowledges neither.
\<close>

theorem interruptHandler_empty_channel_counterexample:
  "gOnChannel (example_started 3) 2 = None
   \<and> bit (BIT 6 OR BIT 26) (2 * 3) \<and> bit (BIT 6 OR BIT 26) (2 + 24)
   \<and> \<not> isl (interruptHandler 3 (BIT 6 OR BIT 26) (example_started 3))
   \<and> RMT_int_clr (example_started 3) = 0
   \<and> RMT_int_clr (projr (interruptHandler 3 (BIT 6 OR BIT 26) (example_started 3))) = 0"
  by code_simp


theorem interruptHandler_one_event_witness:
  "registry_ok (example_started 3) \<and> (3::nat) \<le> 8 \<and> (0::nat) < 3
   \<and> gOnChannel (example_started 3) 0 = Some 0
   \<and> bit (BIT 0 OR BIT 24) (0 + 24) \<and> bit (BIT 0 OR BIT 24) (0 * 3)
   \<and> (\<exists>s'. interruptHandler 3 (BIT 0 OR BIT 24) (example_started 3) = Inr s'
          \<and> gOnChannel s' 0 = Some 0 \<and> bit (RMT_int_clr s') (0 + 24)
          \<and> \<not> bit (RMT_int_clr s') (0 * 3))"
proof -
  have ok: "registry_ok (example_started 3)" by code_simp
  have M: "(3::nat) \<le> 8" and c: "(0::nat) < 3" by simp_all
  have occ: "gOnChannel (example_started 3) 0 = Some 0" by code_simp
  have st: "bit (BIT 0 OR BIT 24) (0 + 24)" "bit (BIT 0 OR BIT 24) (0 * 3)"
    by code_simp+
  have clr: "\<not> bit (RMT_int_clr (example_started 3)) (0 * 3)" by code_simp
  from interruptHandler_one_event [OF ok M c occ, of "BIT 0 OR BIT 24"] st(1) clr
  have "\<exists>s'. interruptHandler 3 (BIT 0 OR BIT 24) (example_started 3) = Inr s'
          \<and> gOnChannel s' 0 = Some 0 \<and> bit (RMT_int_clr s') (0 + 24)
          \<and> \<not> bit (RMT_int_clr s') (0 * 3)"
    by auto
  then show ?thesis using ok M c occ st by blast
qed

theorem interruptHandler_empty_channel_witness:
  "registry_ok (example_started 3) \<and> (3::nat) \<le> 8 \<and> (2::nat) < 3
   \<and> gOnChannel (example_started 3) 2 = None
   \<and> (\<exists>s'. interruptHandler 3 (BIT 6 OR BIT 26) (example_started 3) = Inr s'
          \<and> gOnChannel s' 2 = None \<and> \<not> bit (RMT_int_clr s') (2 * 3)
          \<and> \<not> bit (RMT_int_clr s') (2 + 24))"
proof -
  have ok: "registry_ok (example_started 3)" by code_simp
  have M: "(3::nat) \<le> 8" and c: "(2::nat) < 3" by simp_all
  have emp: "gOnChannel (example_started 3) 2 = None" by code_simp
  have clr: "\<not> bit (RMT_int_clr (example_started 3)) (2 * 3)"
    "\<not> bit (RMT_int_clr (example_started 3)) (2 + 24)" by code_simp+
  from interruptHandler_empty_channel [OF ok M c emp, of "BIT 6 OR BIT 26"] clr
  have "\<exists>s'. interruptHandler 3 (BIT 6 OR BIT 26) (example_started 3) = Inr s'
          \<and> gOnChannel s' 2 = None \<and> \<not> bit (RMT_int_clr s') (2 * 3)
          \<and> \<not> bit (RMT_int_clr s') (2 + 24)"
    by auto
  then show ?thesis using ok M c emp by blast
qed

section \<open>Registration\<close>

lemma sdiv_nonneg: "0 \<le> a \<Longrightarrow> 0 < b \<Longrightarrow> a sdiv b = a div (b :: int)"
  by (cases "a = 0") (simp_all add: signed_divide_int_def sgn_if)

lemma cycles_ratio:
  "0 < RMT_CYCLES_PER_ESP_CYCLE F_CPU \<Longrightarrow>
   RMT_CYCLES_PER_ESP_CYCLE F_CPU = F_CPU div (F_CPU_RMT div DIVIDER)"
proof -
  assume k: "0 < RMT_CYCLES_PER_ESP_CYCLE F_CPU"
  have r: "RMT_CYCLES_PER_SEC = 40000000"
    by (simp add: RMT_CYCLES_PER_SEC_def F_CPU_RMT_def DIVIDER_def signed_divide_int_def)
  have "0 \<le> F_CPU"
  proof (rule ccontr)
    assume "\<not> 0 \<le> F_CPU"
    then have "F_CPU sdiv 40000000 \<le> 0"
      by (simp add: signed_divide_int_def sgn_if)
    then show False using k by (simp add: RMT_CYCLES_PER_ESP_CYCLE_def r)
  qed
  then show ?thesis
    by (simp add: RMT_CYCLES_PER_ESP_CYCLE_def r sdiv_nonneg F_CPU_RMT_def DIVIDER_def)
qed

lemma ESP_TO_RMT_CYCLES_nonneg:
  "0 < RMT_CYCLES_PER_ESP_CYCLE F_CPU \<Longrightarrow> 0 \<le> n \<Longrightarrow>
   ESP_TO_RMT_CYCLES F_CPU n = Inr (n div RMT_CYCLES_PER_ESP_CYCLE F_CPU)"
  by (simp add: ESP_TO_RMT_CYCLES_def sdiv_nonneg)

lemma uint_duration: "0 \<le> x \<Longrightarrow> x < 2 ^ 15 \<Longrightarrow> uint (word_of_int x :: 15 word) = x"
  by (simp add: uint_word_of_int take_bit_int_eq_self)

lemma init_ok:
  assumes "RMT_CYCLES_PER_ESP_CYCLE F_CPU \<noteq> 0"
  shows "init F_CPU DATA_PIN T1 T2 T3 this s =
     Inr (s\<lparr>heap := (heap s)(this := (heap s this)
               \<lparr>mOne := (mOne (heap s this))
                    \<lparr>level0 := 1,
                     duration0 := word_of_int ((T1 + T2) sdiv RMT_CYCLES_PER_ESP_CYCLE F_CPU),
                     level1 := 0,
                     duration1 := word_of_int (T3 sdiv RMT_CYCLES_PER_ESP_CYCLE F_CPU)\<rparr>,
                mZero := (mZero (heap s this))
                    \<lparr>level0 := 1,
                     duration0 := word_of_int (T1 sdiv RMT_CYCLES_PER_ESP_CYCLE F_CPU),
                     level1 := 0,
                     duration1 := word_of_int ((T2 + T3) sdiv RMT_CYCLES_PER_ESP_CYCLE F_CPU)\<rparr>,
                mPin := DATA_PIN\<rparr>),
             gControllers := (gControllers s)(gNumControllers s \<mapsto> this),
             gNumControllers := gNumControllers s + 1\<rparr>)"
  using assms by (simp add: init_def ESP_TO_RMT_CYCLES_def Let_def)

subsection \<open>What registration fixes stays fixed\<close>

lemma handle_channel_fixed:
  "handle_channel st c s = Inr s' \<Longrightarrow> fixed_part s' = fixed_part s"
  using fillNext_fixed
  by (auto simp: handle_channel_def doneOnChannel_def startNext_def xSemaphoreGiveFromISR_def
      Let_def startOnChannel_eq call_fillNext_eq fixed_part_def fun_eq_iff
      split: option.splits if_splits sum.splits)

lemma channel_loop_fixed:
  "channel_loop st cs s = Inr s' \<Longrightarrow> fixed_part s' = fixed_part s"
proof (induction cs arbitrary: s)
  case Nil
  then show ?case by simp
next
  case (Cons c cs)
  then show ?case by (auto split: sum.splits dest: handle_channel_fixed)
qed

lemma interruptHandler_fixed:
  "interruptHandler M st s = Inr s' \<Longrightarrow> fixed_part s' = fixed_part s"
  by (auto simp: interruptHandler_def dest: channel_loop_fixed)

lemma interrupts_fixed:
  "interrupts M sts s = Inr s' \<Longrightarrow> fixed_part s' = fixed_part s"
proof (induction sts arbitrary: s)
  case Nil
  then show ?case by simp
next
  case (Cons st sts)
  then show ?case by (auto split: sum.splits dest: interruptHandler_fixed)
qed

lemma initRMT_channels_fixed:
  "fixed_part (fold (initRMT_channel this) cs s) = fixed_part s"
  by (induction cs arbitrary: s) (simp_all add: initRMT_channel_def fixed_part_def Let_def)

lemma initRMT_fixed: "initRMT M this s = Inr s' \<Longrightarrow> fixed_part s' = fixed_part s"
  using initRMT_channels_fixed [of this "[0..<M]" s]
  by (auto simp: initRMT_def xSemaphoreGive_def Let_def fixed_part_def
      split: option.splits if_splits sum.splits)

lemma xSemaphoreTake_fixed: "xSemaphoreTake s = Inr s' \<Longrightarrow> fixed_part s' = fixed_part s"
  by (auto simp: xSemaphoreTake_def fixed_part_def split: option.splits if_splits)

lemma xSemaphoreGive_fixed: "xSemaphoreGive s = Inr s' \<Longrightarrow> fixed_part s' = fixed_part s"
  by (auto simp: xSemaphoreGive_def fixed_part_def split: option.splits if_splits)

lemma startNext_fixed: "startNext c s = Inr s' \<Longrightarrow> fixed_part s' = fixed_part s"
  using fillNext_fixed
  by (auto simp: startNext_def Let_def startOnChannel_eq fixed_part_def fun_eq_iff
      split: option.splits if_splits)

declare start_loop.simps [simp del]

lemma start_loop_fixed:
  "start_loop M c s = Inr (c', s') \<Longrightarrow> fixed_part s' = fixed_part s"
proof (induction M c s rule: start_loop.induct)
  case (1 M channel s)
  show ?case
  proof (cases "channel < M \<and> gNext s < gNumControllers s")
    case True
    then obtain s1 where s1: "startNext channel s = Inr s1"
      and rest: "start_loop M (channel + 1) s1 = Inr (c', s')"
      using "1.prems" by (auto simp: start_loop.simps [of M channel s] split: sum.splits)
    show ?thesis
      using "1.IH" [OF True s1 rest] startNext_fixed [OF s1] by simp
  next
    case False
    then show ?thesis using "1.prems" by (auto simp: start_loop.simps [of M channel s])
  qed
qed

lemma tx_start_loop_fixed:
  "tx_start_loop cs s = Inr s' \<Longrightarrow> fixed_part s' = fixed_part s"
proof (induction cs arbitrary: s)
  case Nil
  then show ?case by simp
next
  case (Cons c cs)
  then show ?case by (fastforce simp: fixed_part_def split: option.splits)
qed

lemma showPixels_fixed:
  assumes "showPixels M this pixels s = Inr r"
  shows "fixed_part (state_of r) = fixed_part s"
proof -
  obtain s1 where s1: "(if gNumStarted s = 0 then
              (case (if \<not> gInitialized s then initRMT M this s else Inr s) of
                 Inl e \<Rightarrow> Inl e
               | Inr s0 \<Rightarrow> xSemaphoreTake s0)
            else Inr s) = Inr s1"
    using assms by (auto simp: showPixels_def split: sum.splits)
  have f1: "fixed_part s1 = fixed_part s"
    using s1 initRMT_fixed [of M this s] xSemaphoreTake_fixed [of _ s1]
    by (auto split: if_splits sum.splits)
  let ?s3 = "s1\<lparr>heap := (heap s1)(this := (heap s1 this)\<lparr>mPixels := pixels\<rparr>),
                 gNumStarted := gNumStarted s1 + 1\<rparr>"
  have f3: "fixed_part ?s3 = fixed_part s1" by (auto simp: fixed_part_def fun_eq_iff)
  have f4: "fixed_part (?s3\<lparr>gNext := 0\<rparr>) = fixed_part s1" by (auto simp: fixed_part_def fun_eq_iff)
  show ?thesis
  proof (cases "gNumStarted s1 + 1 = gNumControllers s1")
    case True
    then obtain channel s4 s5 where
      "start_loop M 0 (?s3\<lparr>gNext := 0\<rparr>) = Inr (channel, s4)"
      "tx_start_loop [0..<channel] s4 = Inr s5" "r = Waiting s5"
      using assms s1 by (auto simp: showPixels_def Let_def split: sum.splits prod.splits)
    then show ?thesis
      using f1 f4 start_loop_fixed tx_start_loop_fixed by (simp add: state_of_def)
  next
    case False
    then have "r = Returned ?s3"
      using assms s1 by (auto simp: showPixels_def Let_def split: sum.splits)
    then show ?thesis using f1 f3 by (simp add: state_of_def)
  qed
qed

lemma showPixels_resume_fixed:
  "showPixels_resume s = Inr s' \<Longrightarrow> fixed_part s' = fixed_part s"
  by (auto simp: showPixels_resume_def xSemaphoreTake_def xSemaphoreGive_def fixed_part_def
      split: option.splits if_splits sum.splits)

lemma fixed_part_descriptors:
  "fixed_part s' = fixed_part s \<Longrightarrow>
   mZero (heap s' p) = mZero (heap s p) \<and> mOne (heap s' p) = mOne (heap s p)"
  by (auto simp: fixed_part_def fun_eq_iff)

text \<open>
  Claim C9. For timing constants that are not negative and whose quotients fit the 15-bit
  duration fields, \<^verbatim>\<open>init\<close> computes the two pulse descriptors by integer division with the
  number of CPU cycles per RMT cycle, \<^verbatim>\<open>F_CPU / (F_CPU_RMT / DIVIDER)\<close>: the one-pulse is high
  for \<open>(T1 + T2) div k\<close> and low for \<open>T3 div k\<close>, the zero-pulse high for \<open>T1 div k\<close> and
  low for \<open>(T2 + T3) div k\<close>. The registration of one controller leaves the descriptors of
  the others alone, and \<^verbatim>\<open>showPixels\<close> and the interrupt handler change no descriptor.
\<close>

theorem init_pulse_descriptors:
  assumes "0 \<le> T1" and "0 \<le> T2" and "0 \<le> T3"
    and "0 < RMT_CYCLES_PER_ESP_CYCLE F_CPU"
    and "(T1 + T2) div RMT_CYCLES_PER_ESP_CYCLE F_CPU < 2 ^ 15"
    and "(T2 + T3) div RMT_CYCLES_PER_ESP_CYCLE F_CPU < 2 ^ 15"
  shows "RMT_CYCLES_PER_ESP_CYCLE F_CPU = F_CPU div (F_CPU_RMT div DIVIDER)
    \<and> (\<exists>s1. init F_CPU DATA_PIN T1 T2 T3 this s = Inr s1
        \<and> level0 (mOne (heap s1 this)) = 1
        \<and> uint (duration0 (mOne (heap s1 this))) = (T1 + T2) div RMT_CYCLES_PER_ESP_CYCLE F_CPU
        \<and> level1 (mOne (heap s1 this)) = 0
        \<and> uint (duration1 (mOne (heap s1 this))) = T3 div RMT_CYCLES_PER_ESP_CYCLE F_CPU
        \<and> level0 (mZero (heap s1 this)) = 1
        \<and> uint (duration0 (mZero (heap s1 this))) = T1 div RMT_CYCLES_PER_ESP_CYCLE F_CPU
        \<and> level1 (mZero (heap s1 this)) = 0
        \<and> uint (duration1 (mZero (heap s1 this))) = (T2 + T3) div RMT_CYCLES_PER_ESP_CYCLE F_CPU
        \<and> (\<forall>p. p \<noteq> this \<longrightarrow> mZero (heap s1 p) = mZero (heap s p)
                              \<and> mOne (heap s1 p) = mOne (heap s p)))
    \<and> (\<forall>M q pixels t r p. showPixels M q pixels t = Inr r \<longrightarrow>
          mZero (heap (state_of r) p) = mZero (heap t p)
          \<and> mOne (heap (state_of r) p) = mOne (heap t p))
    \<and> (\<forall>M intr_st t t' p. interruptHandler M intr_st t = Inr t' \<longrightarrow>
          mZero (heap t' p) = mZero (heap t p) \<and> mOne (heap t' p) = mOne (heap t p))
    \<and> (\<forall>t t' p. showPixels_resume t = Inr t' \<longrightarrow>
          mZero (heap t' p) = mZero (heap t p) \<and> mOne (heap t' p) = mOne (heap t p))"
proof -
  let ?k = "RMT_CYCLES_PER_ESP_CYCLE F_CPU"
  have k: "?k \<noteq> 0" "0 < ?k" using assms(4) by simp_all
  have d: "(T1 + T2) sdiv ?k = (T1 + T2) div ?k" "T3 sdiv ?k = T3 div ?k"
    "T1 sdiv ?k = T1 div ?k" "(T2 + T3) sdiv ?k = (T2 + T3) div ?k"
    using assms(1-3) k(2) by (simp_all add: sdiv_nonneg)
  have lo: "0 \<le> (T1 + T2) div ?k" "0 \<le> T3 div ?k" "0 \<le> T1 div ?k" "0 \<le> (T2 + T3) div ?k"
    using assms(1-3) k(2) by (simp_all add: pos_imp_zdiv_nonneg_iff)
  have "T3 div ?k \<le> (T2 + T3) div ?k" "T1 div ?k \<le> (T1 + T2) div ?k"
    using assms(1-3) k(2) by (simp_all add: zdiv_mono1)
  then have hi: "T3 div ?k < 2 ^ 15" "T1 div ?k < 2 ^ 15"
    using assms(5,6) by linarith+
  have reg: "\<exists>s1. init F_CPU DATA_PIN T1 T2 T3 this s = Inr s1
        \<and> level0 (mOne (heap s1 this)) = 1
        \<and> uint (duration0 (mOne (heap s1 this))) = (T1 + T2) div ?k
        \<and> level1 (mOne (heap s1 this)) = 0
        \<and> uint (duration1 (mOne (heap s1 this))) = T3 div ?k
        \<and> level0 (mZero (heap s1 this)) = 1
        \<and> uint (duration0 (mZero (heap s1 this))) = T1 div ?k
        \<and> level1 (mZero (heap s1 this)) = 0
        \<and> uint (duration1 (mZero (heap s1 this))) = (T2 + T3) div ?k
        \<and> (\<forall>p. p \<noteq> this \<longrightarrow> mZero (heap s1 p) = mZero (heap s p)
                              \<and> mOne (heap s1 p) = mOne (heap s p))"
    unfolding init_ok [OF k(1)] d
    using lo hi assms(5,6) by (simp add: uint_duration)
  show ?thesis
    using cycles_ratio [OF assms(4)] reg
      fixed_part_descriptors [OF showPixels_fixed]
      fixed_part_descriptors [OF interruptHandler_fixed]
      fixed_part_descriptors [OF showPixels_resume_fixed]
    by blast
qed

theorem init_pulse_descriptors_witness:
  "(0::int) \<le> 60 \<and> (0::int) \<le> 150 \<and> (0::int) \<le> 90
   \<and> 0 < RMT_CYCLES_PER_ESP_CYCLE 240000000
   \<and> (60 + 150) div RMT_CYCLES_PER_ESP_CYCLE 240000000 < 2 ^ 15
   \<and> (150 + 90) div RMT_CYCLES_PER_ESP_CYCLE 240000000 < 2 ^ 15
   \<and> RMT_CYCLES_PER_ESP_CYCLE 240000000 = 6
   \<and> (\<exists>s1. init 240000000 5 60 150 90 0 (initial_state (\<lambda>p. blank_controller)) = Inr s1
        \<and> uint (duration0 (mOne (heap s1 0))) = 35 \<and> uint (duration1 (mOne (heap s1 0))) = 15
        \<and> uint (duration0 (mZero (heap s1 0))) = 10 \<and> uint (duration1 (mZero (heap s1 0))) = 40)"
proof -
  have k: "RMT_CYCLES_PER_ESP_CYCLE 240000000 = 6"
    by (simp add: RMT_CYCLES_PER_ESP_CYCLE_def RMT_CYCLES_PER_SEC_def F_CPU_RMT_def DIVIDER_def
        signed_divide_int_def)
  have h: "(0::int) \<le> 60" "(0::int) \<le> 150" "(0::int) \<le> 90"
    "0 < RMT_CYCLES_PER_ESP_CYCLE 240000000"
    "(60 + 150) div RMT_CYCLES_PER_ESP_CYCLE 240000000 < 2 ^ 15"
    "(150 + 90) div RMT_CYCLES_PER_ESP_CYCLE 240000000 < 2 ^ 15"
    by (simp_all add: k)
  from init_pulse_descriptors [OF h, of 5 0 "initial_state (\<lambda>p. blank_controller)"]
  have "\<exists>s1. init 240000000 5 60 150 90 0 (initial_state (\<lambda>p. blank_controller)) = Inr s1
        \<and> uint (duration0 (mOne (heap s1 0))) = 35 \<and> uint (duration1 (mOne (heap s1 0))) = 15
        \<and> uint (duration0 (mZero (heap s1 0))) = 10 \<and> uint (duration1 (mZero (heap s1 0))) = 40"
    by (auto simp: k)
  then show ?thesis using h k by blast
qed

lemma ratio_240MHz: "RMT_CYCLES_PER_ESP_CYCLE 240000000 = 6"
  by (simp add: RMT_CYCLES_PER_ESP_CYCLE_def RMT_CYCLES_PER_SEC_def F_CPU_RMT_def DIVIDER_def
      signed_divide_int_def)

lemma example_registry_count: "gNumControllers (example_registry n) = n"
proof (induction n)
  case 0
  show ?case by (simp add: example_registry_def initial_state_def)
next
  case (Suc n)
  have "example_registry (Suc n)
          = projr (init 240000000 (5 + n) 60 150 90 n (example_registry n))"
    by (simp add: example_registry_def)
  then show ?case using Suc by (simp add: init_ok ratio_240MHz)
qed

text \<open>
  Claim C8, as amended. \<^verbatim>\<open>init\<close> has no capacity check and reports nothing: it returns
  normally in every state (the cycle ratio being defined). While fewer than
  \<open>FASTLED_RMT_MAX_CONTROLLERS\<close> strips are registered it stores the strip at index
  \<open>gNumControllers\<close>, leaves the other entries as they are and increments
  \<open>gNumControllers\<close>, which stays within the capacity.
\<close>

theorem init_no_capacity_check:
  assumes "RMT_CYCLES_PER_ESP_CYCLE F_CPU \<noteq> 0"
  shows "\<exists>s1. init F_CPU DATA_PIN T1 T2 T3 this s = Inr s1
          \<and> (gNumControllers s < FASTLED_RMT_MAX_CONTROLLERS \<longrightarrow>
               gControllers s1 = (gControllers s)(gNumControllers s \<mapsto> this)
               \<and> gNumControllers s1 = gNumControllers s + 1
               \<and> gNumControllers s1 \<le> FASTLED_RMT_MAX_CONTROLLERS)"
  by (simp add: init_ok [OF assms])

theorem init_no_capacity_check_witness:
  "RMT_CYCLES_PER_ESP_CYCLE 240000000 \<noteq> 0
   \<and> gNumControllers (example_registry 2) < FASTLED_RMT_MAX_CONTROLLERS
   \<and> (\<exists>s1. init 240000000 7 60 150 90 2 (example_registry 2) = Inr s1
          \<and> gControllers s1 2 = Some 2 \<and> gNumControllers s1 = 3)"
proof -
  have k: "RMT_CYCLES_PER_ESP_CYCLE 240000000 \<noteq> 0"
    by (simp add: RMT_CYCLES_PER_ESP_CYCLE_def RMT_CYCLES_PER_SEC_def F_CPU_RMT_def DIVIDER_def
        signed_divide_int_def)
  have n: "gNumControllers (example_registry 2) = 2" by (rule example_registry_count)
  from init_no_capacity_check [OF k, of 7 60 150 90 2 "example_registry 2"] n
  have "\<exists>s1. init 240000000 7 60 150 90 2 (example_registry 2) = Inr s1
          \<and> gControllers s1 2 = Some 2 \<and> gNumControllers s1 = 3"
    by (auto simp: FASTLED_RMT_MAX_CONTROLLERS_def)
  then show ?thesis using k n by (simp add: FASTLED_RMT_MAX_CONTROLLERS_def)
qed

text \<open>
  Claim C8 as stated fails: with \<open>FASTLED_RMT_MAX_CONTROLLERS\<close> strips registered, one more
  call of \<^verbatim>\<open>init\<close> returns normally, counts 33 strips and has stored at the index just past
  the array.
\<close>

theorem init_capacity_counterexample:
  "gNumControllers (example_registry 32) = FASTLED_RMT_MAX_CONTROLLERS
   \<and> \<not> isl (init 240000000 37 60 150 90 32 (example_registry 32))
   \<and> gNumControllers (projr (init 240000000 37 60 150 90 32 (example_registry 32))) = 33
   \<and> FASTLED_RMT_MAX_CONTROLLERS
       < gNumControllers (projr (init 240000000 37 60 150 90 32 (example_registry 32)))
   \<and> gControllers (projr (init 240000000 37 60 150 90 32 (example_registry 32)))
       FASTLED_RMT_MAX_CONTROLLERS = Some 32"
  by (simp add: init_ok ratio_240MHz example_registry_count FASTLED_RMT_MAX_CONTROLLERS_def)

section \<open>A show cycle\<close>

subsection \<open>Counting the occupied channels\<close>

lemma count_upd_other:
  "c \<notin> set cs \<Longrightarrow>
   length (filter (\<lambda>x. (f(c := v)) x \<noteq> None) cs) = length (filter (\<lambda>x. f x \<noteq> None) cs)"
  by (induction cs) auto

lemma count_upd_None:
  "c < M \<Longrightarrow> f c \<noteq> None \<Longrightarrow>
   length (filter (\<lambda>x. (f(c := None)) x \<noteq> None) [0..<M]) + 1
     = length (filter (\<lambda>x. f x \<noteq> None) [0..<M])"
proof (induction M)
  case 0
  then show ?case by simp
next
  case (Suc M)
  show ?case
  proof (cases "c = M")
    case True
    then show ?thesis using Suc.prems count_upd_other [of M "[0..<M]" f None] by simp
  next
    case False
    then have "c < M" using Suc.prems by simp
    then show ?thesis using Suc.IH Suc.prems False by simp
  qed
qed

lemma count_upd_Some:
  "c < M \<Longrightarrow> f c = None \<Longrightarrow>
   length (filter (\<lambda>x. (f(c \<mapsto> q)) x \<noteq> None) [0..<M])
     = length (filter (\<lambda>x. f x \<noteq> None) [0..<M]) + 1"
proof (induction M)
  case 0
  then show ?case by simp
next
  case (Suc M)
  show ?case
  proof (cases "c = M")
    case True
    then show ?thesis using Suc.prems count_upd_other [of M "[0..<M]" f "Some q"] by simp
  next
    case False
    then have "c < M" using Suc.prems by simp
    then show ?thesis using Suc.IH Suc.prems False by simp
  qed
qed

lemma occupied_clear:
  "c < M \<Longrightarrow> gOnChannel s c \<noteq> None \<Longrightarrow> gOnChannel s' = (gOnChannel s)(c := None) \<Longrightarrow>
   occupied M s' + 1 = occupied M s"
  using count_upd_None [of c M "gOnChannel s"] by (simp add: occupied_def)

lemma occupied_replace:
  "c < M \<Longrightarrow> gOnChannel s c \<noteq> None \<Longrightarrow> gOnChannel s' = (gOnChannel s)(c \<mapsto> q) \<Longrightarrow>
   occupied M s' = occupied M s"
proof -
  assume c: "c < M" and o: "gOnChannel s c \<noteq> None" and e: "gOnChannel s' = (gOnChannel s)(c \<mapsto> q)"
  let ?f = "(gOnChannel s)(c := None)"
  have "length (filter (\<lambda>x. (?f(c \<mapsto> q)) x \<noteq> None) [0..<M])
          = length (filter (\<lambda>x. ?f x \<noteq> None) [0..<M]) + 1"
    using count_upd_Some [of c M ?f q] c by simp
  then show ?thesis
    using count_upd_None [of c M "gOnChannel s"] c o e by (simp add: occupied_def)
qed

lemma occupied_same: "gOnChannel s' = gOnChannel s \<Longrightarrow> occupied M s' = occupied M s"
  by (simp add: occupied_def)

lemma occupied_pos: "c < M \<Longrightarrow> gOnChannel s c \<noteq> None \<Longrightarrow> 0 < occupied M s"
  using count_upd_None [of c M "gOnChannel s"] unfolding occupied_def by linarith

subsection \<open>The interrupt side keeps the cycle in order\<close>

lemma progress_refl: "progress s s"
  by (simp add: progress_def)

lemma progress_trans:
  assumes a: "progress s s1" and b: "progress s1 s2"
  shows "progress s s2"
proof -
  have f: "fixed_part s1 = fixed_part s" "fixed_part s2 = fixed_part s1"
    using a b by (simp_all add: progress_def)
  then have n: "gNumControllers s1 = gNumControllers s"
    and g: "gControllers s1 = gControllers s"
    and pin: "\<And>p. mPin (heap s1 p) = mPin (heap s p)"
    by (auto simp: fixed_part_def fun_eq_iff)
  obtain tr1 where t1: "trace s1 = trace s @ tr1"
    "gives tr1 = (if gNumDone s < gNumControllers s \<and> gNumControllers s \<le> gNumDone s1 then 1 else 0)"
    "map snd (set_pins tr1) = map (\<lambda>i. mPin (heap s (the (gControllers s i)))) [gNext s..<gNext s1]"
    using a by (auto simp: progress_def)
  obtain tr2 where t2: "trace s2 = trace s1 @ tr2"
    "gives tr2 = (if gNumDone s1 < gNumControllers s \<and> gNumControllers s \<le> gNumDone s2 then 1 else 0)"
    "map snd (set_pins tr2) = map (\<lambda>i. mPin (heap s (the (gControllers s i)))) [gNext s1..<gNext s2]"
    using b n g pin by (auto simp: progress_def)
  have m: "gNumDone s \<le> gNumDone s1" "gNumDone s1 \<le> gNumDone s2"
    "gNext s \<le> gNext s1" "gNext s1 \<le> gNext s2"
    using a b by (simp_all add: progress_def)
  have upt: "[gNext s..<gNext s2] = [gNext s..<gNext s1] @ [gNext s1..<gNext s2]"
    using m(3,4) by (metis le_Suc_ex upt_add_eq_append)
  have "trace s2 = trace s @ (tr1 @ tr2)" using t1(1) t2(1) by simp
  moreover have "gives (tr1 @ tr2)
      = (if gNumDone s < gNumControllers s \<and> gNumControllers s \<le> gNumDone s2 then 1 else 0)"
    using t1(2) t2(2) m(1,2) by auto
  moreover have "map snd (set_pins (tr1 @ tr2))
      = map (\<lambda>i. mPin (heap s (the (gControllers s i)))) [gNext s..<gNext s2]"
    using t1(3) t2(3) upt by simp
  ultimately show ?thesis
    using a b f m unfolding progress_def by (metis le_trans)
qed

lemma fixed_part_fields:
  "fixed_part (s\<lparr>RMT_int_clr := x\<rparr>) = fixed_part s"
  "fixed_part (s\<lparr>gOnChannel := f\<rparr>) = fixed_part s"
  "fixed_part (s\<lparr>gNumDone := n\<rparr>) = fixed_part s"
  "fixed_part (s\<lparr>gNext := n\<rparr>) = fixed_part s"
  "fixed_part (s\<lparr>gNumStarted := n\<rparr>) = fixed_part s"
  "fixed_part (s\<lparr>gTX_sem := b\<rparr>) = fixed_part s"
  "fixed_part (s\<lparr>trace := t\<rparr>) = fixed_part s"
  by (simp_all add: fixed_part_def)

lemma doneOnChannel_cycle:
  assumes inv: "cycle_inv M s" and c: "c < M" and occ: "gOnChannel s c = Some p"
  shows "\<exists>s'. doneOnChannel c s = Inr s' \<and> cycle_inv M s' \<and> progress s s'
           \<and> RMT_int_clr s' = RMT_int_clr s"
proof -
  let ?N = "gNumControllers s"
  have ok: "registry_ok s" and N: "0 < ?N" and nx: "gNext s \<le> ?N"
    and cnt: "gNumDone s + occupied M s = gNext s"
    and sem: "gTX_sem s = Some (gNumDone s = ?N)"
    using inv by (simp_all add: cycle_inv_def)
  have pos: "0 < occupied M s" using occupied_pos [OF c] occ by simp
  then have lt: "gNumDone s < ?N" using cnt nx by linarith
  consider (final) "gNumDone s + 1 = ?N"
    | (more) "gNumDone s + 1 \<noteq> ?N" "gNext s < ?N"
    | (none) "gNumDone s + 1 \<noteq> ?N" "\<not> gNext s < ?N"
    by blast
  then show ?thesis
  proof cases
    case final
    let ?s' = "s\<lparr>gOnChannel := (gOnChannel s)(c := None), gNumDone := gNumDone s + 1,
             gTX_sem := Some True,
             trace := trace s @ [GpioMatrixOut (mPin (heap s p)), SemGiveFromISR]\<rparr>"
    have eq: "doneOnChannel c s = Inr ?s'" by (rule doneOnChannel_last [OF occ final sem])
    have o: "occupied M ?s' + 1 = occupied M s"
      by (rule occupied_clear [OF c]) (use occ in simp_all)
    have "cycle_inv M ?s'"
      using ok N nx cnt o final unfolding cycle_inv_def registry_ok_def by simp
    moreover have "progress s ?s'"
      using final lt by (simp add: progress_def fixed_part_def)
    ultimately show ?thesis using eq by simp
  next
    case more
    have "gNext s \<in> {0..<?N}" using more(2) by simp
    then obtain q where q: "gControllers s (gNext s) = Some q"
      using ok unfolding registry_ok_def by blast
    let ?s0 = "s\<lparr>gOnChannel := (gOnChannel s)(c := None), gNumDone := gNumDone s + 1,
                     trace := trace s @ [GpioMatrixOut (mPin (heap s p))]\<rparr>"
    let ?s1 = "startOnChannel q c ?s0"
    define s' where "s' = ?s1\<lparr>gNext := gNext s + 1,
                  trace := trace ?s1 @ [RmtTxStart (mRMT_channel (heap ?s1 p))]\<rparr>"
    have eq: "doneOnChannel c s = Inr s'"
      using doneOnChannel_next [OF occ more q] by (simp add: Let_def s'_def)
    have fx: "fixed_part s' = fixed_part s"
      by (simp add: s'_def fixed_part_fields fixed_part_startOnChannel)
    have fields: "gOnChannel s' = (gOnChannel s)(c \<mapsto> q)" "gNumDone s' = gNumDone s + 1"
      "gNext s' = gNext s + 1" "gTX_sem s' = gTX_sem s" "gNumStarted s' = gNumStarted s"
      "RMT_int_clr s' = RMT_int_clr s"
      by (simp_all add: s'_def startOnChannel_eq Let_def)
    have "\<exists>ws r. trace s' = trace s @ GpioMatrixOut (mPin (heap s p))
                      # RmtSetPin c (mPin (heap s q)) # mem_writes ws @ [RmtSetTxIntrEn c, RmtTxStart r]"
      by (simp add: s'_def startOnChannel_eq Let_def)
         (metis mem_writes_def map_append)
    then obtain ws r where tr: "trace s' = trace s @ GpioMatrixOut (mPin (heap s p))
                      # RmtSetPin c (mPin (heap s q)) # mem_writes ws @ [RmtSetTxIntrEn c, RmtTxStart r]"
      by blast
    have o: "occupied M s' = occupied M s"
      by (rule occupied_replace [OF c _ fields(1)]) (use occ in simp)
    have reg: "registry_ok s'"
      using ok fx fields(4) by (auto simp: registry_ok_def fixed_part_def)
    have nc: "gNumControllers s' = ?N" using fx by (simp add: fixed_part_def)
    have "cycle_inv M s'"
      unfolding cycle_inv_def using reg N more cnt sem lt o by (simp add: fields nc)
    moreover have "progress s s'"
      unfolding progress_def using fx more(1) lt q
      by (simp add: fields tr)
    ultimately show ?thesis using eq fields(6) by blast
  next
    case none
    let ?s' = "s\<lparr>gOnChannel := (gOnChannel s)(c := None), gNumDone := gNumDone s + 1,
             trace := trace s @ [GpioMatrixOut (mPin (heap s p))]\<rparr>"
    have eq: "doneOnChannel c s = Inr ?s'" by (rule doneOnChannel_idle [OF occ none])
    have o: "occupied M ?s' + 1 = occupied M s"
      by (rule occupied_clear [OF c]) (use occ in simp_all)
    have "cycle_inv M ?s'"
      using ok N nx cnt o none sem lt unfolding cycle_inv_def registry_ok_def by simp
    moreover have "progress s ?s'"
      using none lt by (simp add: progress_def fixed_part_def)
    ultimately show ?thesis using eq by simp
  qed
qed

lemma cycle_inv_cong:
  assumes "cycle_inv M s" and "gControllers s' = gControllers s"
    and "gNumControllers s' = gNumControllers s" and "gOnChannel s' = gOnChannel s"
    and "gNumDone s' = gNumDone s" and "gNext s' = gNext s" and "gTX_sem s' = gTX_sem s"
  shows "cycle_inv M s'"
  using assms by (simp add: cycle_inv_def registry_ok_def occupied_def)

lemma handle_channel_cycle:
  assumes inv: "cycle_inv M s" and c: "c < M"
  shows "\<exists>s'. handle_channel st c s = Inr s' \<and> cycle_inv M s' \<and> progress s s'"
proof (cases "gOnChannel s c")
  case None
  then show ?thesis using inv by (simp add: handle_channel_def progress_refl)
next
  case (Some p)
  consider (fill) "bit st (c + 24)" | (don) "\<not> bit st (c + 24)" "bit st (c * 3)"
    | (nothing) "\<not> bit st (c + 24)" "\<not> bit st (c * 3)" by blast
  then show ?thesis
  proof cases
    case fill
    let ?s' = "call_fillNext p (s\<lparr>RMT_int_clr := RMT_int_clr s OR BIT (c + 24)\<rparr>)"
    have eq: "handle_channel st c s = Inr ?s'"
      using Some fill by (simp add: handle_channel_def BIT_test)
    have "cycle_inv M ?s'"
      by (rule cycle_inv_cong [OF inv]) (simp_all add: call_fillNext_eq)
    moreover have "progress s ?s'"
      unfolding progress_def
      by (simp add: fixed_part_call_fillNext fixed_part_fields) (simp add: call_fillNext_eq)
    ultimately show ?thesis using eq by simp
  next
    case don
    let ?s = "s\<lparr>RMT_int_clr := RMT_int_clr s OR BIT (c * 3)\<rparr>"
    have eq: "handle_channel st c s = doneOnChannel c ?s"
      using Some don by (simp add: handle_channel_def BIT_test)
    have inv': "cycle_inv M ?s" by (rule cycle_inv_cong [OF inv]) simp_all
    obtain s' where s': "doneOnChannel c ?s = Inr s'" "cycle_inv M s'" "progress ?s s'"
      using doneOnChannel_cycle [OF inv' c, of p] Some by auto
    have "progress s ?s" by (simp add: progress_def fixed_part_fields)
    then have "progress s s'" using s'(3) progress_trans by blast
    then show ?thesis using eq s' by simp
  next
    case nothing
    then show ?thesis using Some inv by (simp add: handle_channel_def BIT_test progress_refl)
  qed
qed

lemma interruptHandler_cycle:
  assumes "cycle_inv M s"
  shows "\<exists>s'. interruptHandler M st s = Inr s' \<and> cycle_inv M s' \<and> progress s s'"
  unfolding interruptHandler_def
proof (rule channel_loop_lift [where I = "cycle_inv M"])
  fix c s assume "c \<in> set [0..<M]" "cycle_inv M s"
  then show "\<exists>s'. handle_channel st c s = Inr s' \<and> cycle_inv M s' \<and> progress s s'"
    using handle_channel_cycle [of M s c st] by simp
qed (use assms progress_refl progress_trans in blast)+

lemma interrupts_cycle:
  assumes "cycle_inv M s"
  shows "\<exists>s'. interrupts M sts s = Inr s' \<and> cycle_inv M s' \<and> progress s s'"
proof (rule interrupts_lift [where I = "cycle_inv M"])
  fix st s assume "cycle_inv M s"
  then show "\<exists>s'. interruptHandler M st s = Inr s' \<and> cycle_inv M s' \<and> progress s s'"
    by (rule interruptHandler_cycle)
qed (use assms progress_refl progress_trans in blast)+

subsection \<open>The end of the cycle\<close>

lemma showPixels_resume_eq:
  "showPixels_resume s =
     (case gTX_sem s of
        None \<Rightarrow> Inl NullPointer
      | Some avail \<Rightarrow>
          if avail then
            Inr (s\<lparr>gTX_sem := Some True, trace := trace s @ [SemTake, SemGive],
                   gNumStarted := 0, gNumDone := 0, gNext := 0\<rparr>)
          else Inl WouldBlock)"
  by (simp add: showPixels_resume_def xSemaphoreTake_def xSemaphoreGive_def split: option.splits)

text \<open>
  Claim C1. From any state of a cycle under way, any sequence of interrupts returns and
  leaves a state of the cycle: \<open>gNumDone\<close> has not decreased and does not exceed the number
  of strips; the interrupt side has given the semaphore once if \<open>gNumDone\<close> has reached the
  number of strips during the sequence, and not at all otherwise; the semaphore is
  available iff \<open>gNumDone\<close> equals the number of strips. The waiting call of \<^verbatim>\<open>showPixels\<close>
  goes on exactly then, and it returns with \<open>gNumStarted\<close>, \<open>gNumDone\<close> and \<open>gNext\<close> reset to
  zero.
\<close>

theorem done_count_and_barrier:
  assumes "cycle_inv M s"
  shows "\<exists>s' tr. interrupts M sts s = Inr s' \<and> cycle_inv M s' \<and> trace s' = trace s @ tr
          \<and> gNumControllers s' = gNumControllers s
          \<and> gNumDone s \<le> gNumDone s' \<and> gNumDone s' \<le> gNumControllers s
          \<and> gives tr = (if gNumDone s < gNumControllers s \<and> gNumDone s' = gNumControllers s
                         then 1 else 0)
          \<and> gTX_sem s' = Some (gNumDone s' = gNumControllers s)
          \<and> (if gNumDone s' = gNumControllers s then
                \<exists>s''. showPixels_resume s' = Inr s'' \<and> gNumStarted s'' = 0
                      \<and> gNumDone s'' = 0 \<and> gNext s'' = 0 \<and> gTX_sem s'' = Some True
              else showPixels_resume s' = Inl WouldBlock)"
proof -
  obtain s' where s': "interrupts M sts s = Inr s'" "cycle_inv M s'" "progress s s'"
    using interrupts_cycle [OF assms] by blast
  have n: "gNumControllers s' = gNumControllers s"
    using s'(3) by (simp add: progress_def fixed_part_def)
  obtain tr where tr: "trace s' = trace s @ tr"
    "gives tr = (if gNumDone s < gNumControllers s \<and> gNumControllers s \<le> gNumDone s'
                 then 1 else 0)"
    using s'(3) by (auto simp: progress_def)
  have le: "gNumDone s' \<le> gNumControllers s"
    using s'(2) n by (simp add: cycle_inv_def)
  have sem: "gTX_sem s' = Some (gNumDone s' = gNumControllers s)"
    using s'(2) n by (simp add: cycle_inv_def)
  have g: "gives tr = (if gNumDone s < gNumControllers s \<and> gNumDone s' = gNumControllers s
                         then 1 else 0)"
    using tr(2) le by auto
  have res: "if gNumDone s' = gNumControllers s then
                \<exists>s''. showPixels_resume s' = Inr s'' \<and> gNumStarted s'' = 0
                      \<and> gNumDone s'' = 0 \<and> gNext s'' = 0 \<and> gTX_sem s'' = Some True
              else showPixels_resume s' = Inl WouldBlock"
    by (simp add: showPixels_resume_eq sem)
  have m: "gNumDone s \<le> gNumDone s'" using s'(3) by (simp add: progress_def)
  show ?thesis
    using s'(1,2) tr(1) n m le g sem res by blast
qed

text \<open>
  Claim C3. From any state of a cycle under way, over any sequence of interrupts \<open>gNext\<close>
  does not decrease and stays within the number of strips; the strips put on channels
  during the sequence (one \<^verbatim>\<open>rmt_set_pin\<close> each) are the strips \<open>gNext s, ..., gNext s' - 1\<close>
  of the registry, each once, in this order; when all strips are done, all have been put on
  a channel. A channel that completes while strips are pending receives the strip at
  \<open>gNext\<close>, and \<open>gNext\<close> advances by one.
\<close>

theorem assignment_in_registry_order:
  assumes "cycle_inv M s"
  shows "\<exists>s' tr. interrupts M sts s = Inr s' \<and> cycle_inv M s' \<and> trace s' = trace s @ tr
          \<and> gNext s \<le> gNext s' \<and> gNext s' \<le> gNumControllers s
          \<and> map snd (set_pins tr)
              = map (\<lambda>i. mPin (heap s (the (gControllers s i)))) [gNext s..<gNext s']
          \<and> (gNumDone s' = gNumControllers s \<longrightarrow> gNext s' = gNumControllers s)
          \<and> (\<forall>c p. c < M \<longrightarrow> gOnChannel s c = Some p \<longrightarrow>
                 gNumDone s + 1 \<noteq> gNumControllers s \<longrightarrow> gNext s < gNumControllers s \<longrightarrow>
                 (\<exists>s1 tr1. doneOnChannel c s = Inr s1 \<and> trace s1 = trace s @ tr1
                      \<and> gOnChannel s1 c = gControllers s (gNext s)
                      \<and> gNext s1 = gNext s + 1
                      \<and> set_pins tr1 = [(c, mPin (heap s (the (gControllers s (gNext s)))))]))"
proof -
  obtain s' where s': "interrupts M sts s = Inr s'" "cycle_inv M s'" "progress s s'"
    using interrupts_cycle [OF assms] by blast
  have n: "gNumControllers s' = gNumControllers s"
    using s'(3) by (simp add: progress_def fixed_part_def)
  obtain tr where tr: "trace s' = trace s @ tr"
    "map snd (set_pins tr) = map (\<lambda>i. mPin (heap s (the (gControllers s i)))) [gNext s..<gNext s']"
    using s'(3) by (auto simp: progress_def)
  have le: "gNext s \<le> gNext s'" "gNext s' \<le> gNumControllers s"
    using s'(2,3) n by (simp_all add: cycle_inv_def progress_def)
  have fin: "gNumDone s' = gNumControllers s \<longrightarrow> gNext s' = gNumControllers s"
    using s'(2) n by (auto simp: cycle_inv_def)
  have step: "\<exists>s1 tr1. doneOnChannel c s = Inr s1 \<and> trace s1 = trace s @ tr1
                      \<and> gOnChannel s1 c = gControllers s (gNext s)
                      \<and> gNext s1 = gNext s + 1
                      \<and> set_pins tr1 = [(c, mPin (heap s (the (gControllers s (gNext s)))))]"
    if "c < M" "gOnChannel s c = Some p" "gNumDone s + 1 \<noteq> gNumControllers s"
      "gNext s < gNumControllers s" for c p
  proof -
    have "gNext s \<in> {0..<gNumControllers s}" using that(4) by simp
    then obtain q where q: "gControllers s (gNext s) = Some q"
      using assms unfolding cycle_inv_def registry_ok_def by blast
    show ?thesis
      unfolding doneOnChannel_next [OF that(2,3,4) q]
      by (simp add: Let_def startOnChannel_eq q)
  qed
  show ?thesis
    using s'(1,2) tr le fin step by blast
qed

theorem done_count_and_barrier_witness:
  "cycle_inv 3 (example_started 3)
   \<and> (\<exists>s' tr. interrupts 3 [BIT 0, BIT 3] (example_started 3) = Inr s'
          \<and> trace s' = trace (example_started 3) @ tr
          \<and> gNumDone (example_started 3) = 0 \<and> gNumDone s' = 2 \<and> gives tr = 1
          \<and> gTX_sem s' = Some True
          \<and> (\<exists>s''. showPixels_resume s' = Inr s'' \<and> gNumStarted s'' = 0
                \<and> gNumDone s'' = 0 \<and> gNext s'' = 0))"
proof -
  have inv: "cycle_inv 3 (example_started 3)" by code_simp
  have v: "gNumDone (example_started 3) = 0" "gNumControllers (example_started 3) = 2"
    "gNumDone (projr (interrupts 3 [BIT 0, BIT 3] (example_started 3))) = 2"
    by code_simp+
  from done_count_and_barrier [OF inv, of "[BIT 0, BIT 3]"] v
  have "\<exists>s' tr. interrupts 3 [BIT 0, BIT 3] (example_started 3) = Inr s'
          \<and> trace s' = trace (example_started 3) @ tr
          \<and> gNumDone (example_started 3) = 0 \<and> gNumDone s' = 2 \<and> gives tr = 1
          \<and> gTX_sem s' = Some True
          \<and> (\<exists>s''. showPixels_resume s' = Inr s'' \<and> gNumStarted s'' = 0
                \<and> gNumDone s'' = 0 \<and> gNext s'' = 0)"
    by (elim exE conjE) (simp, blast)
  then show ?thesis using inv by blast
qed

theorem assignment_in_registry_order_witness:
  "cycle_inv 1 (example_started 1)
   \<and> (\<exists>s' tr. interrupts 1 [BIT 0] (example_started 1) = Inr s'
          \<and> trace s' = trace (example_started 1) @ tr
          \<and> gNext (example_started 1) = 1 \<and> gNext s' = 2
          \<and> map snd (set_pins tr) = [6])"
proof -
  have inv: "cycle_inv 1 (example_started 1)" by code_simp
  have v: "gNext (example_started 1) = 1"
    "gNext (projr (interrupts 1 [BIT 0] (example_started 1))) = 2"
    "mPin (heap (example_started 1) (the (gControllers (example_started 1) 1))) = 6"
    by code_simp+
  obtain s' tr where r: "interrupts 1 [BIT 0] (example_started 1) = Inr s'"
    "trace s' = trace (example_started 1) @ tr"
    "map snd (set_pins tr)
       = map (\<lambda>i. mPin (heap (example_started 1) (the (gControllers (example_started 1) i))))
           [gNext (example_started 1)..<gNext s']"
    using assignment_in_registry_order [OF inv, of "[BIT 0]"] by blast
  have n: "gNext s' = 2" using v(2) r(1) by simp
  have "[1..<2::nat] = [1]" by (simp add: upt_rec)
  then have "map snd (set_pins tr) = [6]" using r(3) v(1,3) n by simp
  then have "\<exists>s' tr. interrupts 1 [BIT 0] (example_started 1) = Inr s'
          \<and> trace s' = trace (example_started 1) @ tr
          \<and> gNext (example_started 1) = 1 \<and> gNext s' = 2
          \<and> map snd (set_pins tr) = [6]"
    using r(1,2) n v(1) by (intro exI conjI)
  then show ?thesis using inv by blast
qed

subsection \<open>The start of the cycle\<close>

lemma startOnChannel_primed:
  "startOnChannel p ch s =
     s\<lparr>heap := (heap s)(p := primed ch (heap s p)),
       gOnChannel := (gOnChannel s)(ch \<mapsto> p),
       trace := trace s @ start_events ch (heap s p)\<rparr>"
  by (simp add: startOnChannel_eq Let_def primed_def start_events_def reset_for_def)

lemma distinct_registry:
  assumes "distinct (map f [0..<N])" and "i < N" and "j < N" and "i \<noteq> j"
  shows "f i \<noteq> f j"
proof -
  have "map f [0..<N] ! i \<noteq> map f [0..<N] ! j"
    using assms by (simp add: nth_eq_iff_index_eq del: nth_map)
  then show ?thesis using assms(2,3) by simp
qed

lemma start_loop_run:
  assumes reg: "\<forall>i \<in> {0..<gNumControllers s}. gControllers s i \<noteq> None"
    and dist: "distinct (map (gControllers s) [0..<gNumControllers s])"
    and nx: "gNext s = ch" and le: "ch \<le> min M (gNumControllers s)"
    and n: "n = min M (gNumControllers s) - ch"
  shows "\<exists>s'. start_loop M ch s = Inr (min M (gNumControllers s), s')
          \<and> gNext s' = min M (gNumControllers s)
          \<and> fixed_part s' = fixed_part s
          \<and> gNumDone s' = gNumDone s \<and> gNumStarted s' = gNumStarted s
          \<and> gTX_sem s' = gTX_sem s
          \<and> (\<forall>c. gOnChannel s' c = (if ch \<le> c \<and> c < min M (gNumControllers s)
                                    then gControllers s c else gOnChannel s c))
          \<and> (\<forall>c p. ch \<le> c \<longrightarrow> c < min M (gNumControllers s) \<longrightarrow> gControllers s c = Some p
                 \<longrightarrow> heap s' p = primed c (heap s p))
          \<and> (\<forall>p. (\<forall>c. ch \<le> c \<longrightarrow> c < min M (gNumControllers s) \<longrightarrow> gControllers s c \<noteq> Some p)
                 \<longrightarrow> heap s' p = heap s p)
          \<and> trace s' = trace s @ concat (map (\<lambda>c. start_events c (heap s (the (gControllers s c))))
                                        [ch..<min M (gNumControllers s)])"
  using reg dist nx le n
proof (induction n arbitrary: ch s)
  case 0
  then have "ch = min M (gNumControllers s)" by linarith
  then have "\<not> (ch < M \<and> gNext s < gNumControllers s)" using "0.prems"(3) by auto
  then have "start_loop M ch s = Inr (ch, s)" by (auto simp: start_loop.simps [of M ch s])
  then show ?case using \<open>ch = min M (gNumControllers s)\<close> "0.prems"(3) by auto
next
  case (Suc n)
  let ?N = "gNumControllers s"
  let ?k = "min M ?N"
  have lt: "ch < ?k" using Suc.prems(5) by linarith
  then have chM: "ch < M" and chN: "ch < ?N" by simp_all
  have "ch \<in> {0..<?N}" using chN by simp
  then obtain p where p: "gControllers s ch = Some p" using Suc.prems(1) by blast
  define s1 where "s1 = (startOnChannel p ch s)\<lparr>gNext := ch + 1\<rparr>"
  have sn: "startNext ch s = Inr s1"
    using startNext_eq [of s p ch] chN p Suc.prems(3) by (simp add: s1_def)
  have loop: "start_loop M ch s = start_loop M (ch + 1) s1"
    using chM chN Suc.prems(3) sn by (simp add: start_loop.simps [of M ch s])
  have f1: "gControllers s1 = gControllers s" "gNumControllers s1 = ?N" "gNext s1 = ch + 1"
    "gNumDone s1 = gNumDone s" "gNumStarted s1 = gNumStarted s" "gTX_sem s1 = gTX_sem s"
    "gOnChannel s1 = (gOnChannel s)(ch \<mapsto> p)"
    "heap s1 = (heap s)(p := primed ch (heap s p))"
    "trace s1 = trace s @ start_events ch (heap s p)"
    by (simp_all add: s1_def startOnChannel_primed)
  have fx1: "fixed_part s1 = fixed_part s"
    by (simp add: s1_def fixed_part_fields fixed_part_startOnChannel)
  have other: "gControllers s c \<noteq> Some p" if "ch < c" "c < ?k" for c
    using distinct_registry [OF Suc.prems(2), of c ch] that p chN by auto
  have n': "n = min M (gNumControllers s1) - (ch + 1)" using Suc.prems(5) f1(2) by simp
  have le': "ch + 1 \<le> min M (gNumControllers s1)" using lt f1(2) by simp
  have reg': "\<forall>i \<in> {0..<gNumControllers s1}. gControllers s1 i \<noteq> None"
    using Suc.prems(1) f1(1,2) by simp
  have dist': "distinct (map (gControllers s1) [0..<gNumControllers s1])"
    using Suc.prems(2) f1(1,2) by simp
  note ih = Suc.IH [OF reg' dist' f1(3) le' n', unfolded f1(1,2)]
  obtain s' where s': "start_loop M (ch + 1) s1 = Inr (?k, s')"
      "gNext s' = ?k" "fixed_part s' = fixed_part s1"
      "gNumDone s' = gNumDone s1" "gNumStarted s' = gNumStarted s1" "gTX_sem s' = gTX_sem s1"
      "\<forall>c. gOnChannel s' c = (if ch + 1 \<le> c \<and> c < ?k then gControllers s c else gOnChannel s1 c)"
      "\<forall>c q. ch + 1 \<le> c \<longrightarrow> c < ?k \<longrightarrow> gControllers s c = Some q
                 \<longrightarrow> heap s' q = primed c (heap s1 q)"
      "\<forall>q. (\<forall>c. ch + 1 \<le> c \<longrightarrow> c < ?k \<longrightarrow> gControllers s c \<noteq> Some q) \<longrightarrow> heap s' q = heap s1 q"
      "trace s' = trace s1 @ concat (map (\<lambda>c. start_events c (heap s1 (the (gControllers s c))))
                                        [ch + 1..<?k])"
    using ih by blast
  have a: "gOnChannel s' c = (if ch \<le> c \<and> c < ?k then gControllers s c else gOnChannel s c)" for c
    using s'(7) f1(7) p lt by (cases "c = ch") auto
  have b: "heap s' q = primed c (heap s q)"
    if "ch \<le> c" "c < ?k" "gControllers s c = Some q" for c q
  proof (cases "c = ch")
    case True
    then have q: "q = p" using that(3) p by simp
    have "heap s' p = heap s1 p" using s'(9) other by auto
    then show ?thesis using q True f1(8) by simp
  next
    case False
    then have c: "ch + 1 \<le> c" "ch < c" using that(1) by simp_all
    have "q \<noteq> p" using other [OF c(2) that(2)] that(3) by auto
    then show ?thesis using s'(8) c(1) that(2,3) f1(8) by auto
  qed
  have c: "heap s' q = heap s q"
    if "\<forall>c. ch \<le> c \<longrightarrow> c < ?k \<longrightarrow> gControllers s c \<noteq> Some q" for q
  proof -
    have "q \<noteq> p" using that p lt by auto
    moreover have "heap s' q = heap s1 q" using s'(9) that by auto
    ultimately show ?thesis using f1(8) by simp
  qed
  have ev: "map (\<lambda>c. start_events c (heap s1 (the (gControllers s c)))) [ch + 1..<?k]
          = map (\<lambda>c. start_events c (heap s (the (gControllers s c)))) [ch + 1..<?k]"
  proof (rule map_cong [OF refl])
    fix c assume "c \<in> set [ch + 1..<?k]"
    then have c: "ch < c" "c < ?k" by simp_all
    then have "c \<in> {0..<?N}" by simp
    then obtain q where q: "gControllers s c = Some q" using Suc.prems(1) by blast
    then have "q \<noteq> p" using other [OF c] by auto
    then show "start_events c (heap s1 (the (gControllers s c)))
             = start_events c (heap s (the (gControllers s c)))"
      using q f1(8) by simp
  qed
  have upt: "[ch..<?k] = ch # [ch + 1..<?k]" using lt by (simp add: upt_conv_Cons)
  have d: "trace s' = trace s @ concat (map (\<lambda>c. start_events c (heap s (the (gControllers s c))))
                                        [ch..<?k])"
    unfolding s'(10) ev f1(9) upt using p by simp
  show ?case
    using loop s'(1,2,3,4,5,6) f1(4,5,6) fx1 a b c d by simp
qed

lemma primed_channel: "mRMT_channel (primed c ctrl) = c"
  by (simp add: primed_def fillNext_fixed reset_for_def)

lemma tx_start_loop_run:
  assumes "\<forall>i \<in> set cs. \<exists>p. gControllers s i = Some p \<and> mRMT_channel (heap s p) = i"
  shows "tx_start_loop cs s = Inr (s\<lparr>trace := trace s @ map RmtTxStart cs\<rparr>)"
  using assms
proof (induction cs arbitrary: s)
  case Nil
  show ?case by simp
next
  case (Cons i cs)
  obtain p where p: "gControllers s i = Some p" "mRMT_channel (heap s p) = i"
    using Cons.prems by auto
  let ?s = "s\<lparr>trace := trace s @ [RmtTxStart i]\<rparr>"
  have "\<forall>j \<in> set cs. \<exists>q. gControllers ?s j = Some q \<and> mRMT_channel (heap ?s q) = j"
    using Cons.prems by simp
  from Cons.IH [OF this] show ?case using p by simp
qed

lemma initRMT_channels:
  "fold (initRMT_channel this) cs s =
     s\<lparr>gOnChannel := (\<lambda>c. if c \<in> set cs then None else gOnChannel s c),
       trace := trace s @ concat (map (\<lambda>i. [RmtConfig i (mPin (heap s this)),
                                            RmtSetTxThrIntrEn i PULSES_PER_FILL]) cs)\<rparr>"
proof (induction cs arbitrary: s)
  case Nil
  show ?case by simp
next
  case (Cons c cs)
  let ?s = "s\<lparr>gOnChannel := (gOnChannel s)(c := None),
              trace := trace s @ [RmtConfig c (mPin (heap s this)),
                                  RmtSetTxThrIntrEn c PULSES_PER_FILL]\<rparr>"
  have step: "initRMT_channel this c s = ?s" by (simp add: initRMT_channel_def Let_def)
  have f: "(\<lambda>x. if x \<in> set cs then None else gOnChannel ?s x)
      = (\<lambda>x. if x \<in> set (c # cs) then None else gOnChannel s x)"
    by (auto simp: fun_eq_iff)
  show ?case
    unfolding fold_simps comp_def step Cons.IH f by simp
qed

lemma show_prologue:
  assumes "awaiting_last M s"
  shows "\<exists>s1 pre.
           (if gNumStarted s = 0 then
              (case (if \<not> gInitialized s then initRMT M this s else Inr s) of
                 Inl e \<Rightarrow> Inl e
               | Inr s0 \<Rightarrow> xSemaphoreTake s0)
            else Inr s) = Inr s1
         \<and> heap s1 = heap s \<and> gControllers s1 = gControllers s
         \<and> gNumControllers s1 = gNumControllers s \<and> gNumStarted s1 = gNumStarted s
         \<and> gNumDone s1 = gNumDone s \<and> gTX_sem s1 = Some False
         \<and> (\<forall>c \<in> {0..<M}. gOnChannel s1 c = None)
         \<and> trace s1 = trace s @ pre \<and> list_all is_setup pre"
proof -
  consider (later) "gNumStarted s \<noteq> 0" | (first) "gNumStarted s = 0" "gInitialized s"
    | (fresh) "gNumStarted s = 0" "\<not> gInitialized s" by blast
  then show ?thesis
  proof cases
    case later
    then have "gTX_sem s = Some False" "\<forall>c \<in> {0..<M}. gOnChannel s c = None"
      using assms by (simp_all add: awaiting_last_def)
    then show ?thesis using later by (intro exI [of _ s] exI [of _ "[]"]) simp
  next
    case first
    then have "gTX_sem s = Some True" "\<forall>c \<in> {0..<M}. gOnChannel s c = None"
      using assms by (simp_all add: awaiting_last_def)
    then show ?thesis using first
      by (intro exI [of _ "s\<lparr>gTX_sem := Some False, trace := trace s @ [SemTake]\<rparr>"]
                exI [of _ "[SemTake]"])
         (simp add: xSemaphoreTake_def)
  next
    case fresh
    then have sem: "gTX_sem s = None" using assms by (simp add: awaiting_last_def)
    let ?cfg = "concat (map (\<lambda>i. [RmtConfig i (mPin (heap s this)),
                                   RmtSetTxThrIntrEn i PULSES_PER_FILL]) [0..<M])"
    let ?pre = "?cfg @ [SemCreateBinary, SemGive]
                @ (if \<not> gRMT_intr_handle s then [EspIntrAlloc] else []) @ [SemTake]"
    let ?s1 = "s\<lparr>gOnChannel := (\<lambda>c. if c \<in> set [0..<M] then None else gOnChannel s c),
                 gTX_sem := Some False, gRMT_intr_handle := True, gInitialized := True,
                 trace := trace s @ ?pre\<rparr>"
    have cfg: "list_all is_setup ?cfg" by (induction M) simp_all
    have "(case initRMT M this s of Inl e \<Rightarrow> Inl e | Inr s0 \<Rightarrow> xSemaphoreTake s0) = Inr ?s1"
      using sem
      by (simp add: initRMT_def initRMT_channels xSemaphoreGive_def xSemaphoreTake_def Let_def
          del: set_upt)
    then show ?thesis using fresh cfg
      by (intro exI [of _ ?s1] exI [of _ ?pre]) (simp del: upt_Suc)
  qed
qed

lemma filter_below: "k \<le> M \<Longrightarrow> filter (\<lambda>c. c < k) [0..<M] = [0..<k]"
proof (induction M)
  case 0
  then show ?case by simp
next
  case (Suc M)
  show ?case
  proof (cases "k = Suc M")
    case True
    then show ?thesis by (simp add: filter_id_conv)
  next
    case False
    then have "k \<le> M" using Suc.prems by simp
    then show ?thesis using Suc.IH by simp
  qed
qed

lemma showPixels_last:
  assumes "awaiting_last M s"
  shows "\<exists>s' pre. showPixels M this pixels s = Inr (Waiting s')
          \<and> gNext s' = min M (gNumControllers s)
          \<and> gNumStarted s' = gNumControllers s \<and> gNumDone s' = 0
          \<and> (\<forall>c. c < min M (gNumControllers s) \<longrightarrow> gOnChannel s' c = gControllers s c)
          \<and> (\<forall>c. min M (gNumControllers s) \<le> c \<longrightarrow> c < M \<longrightarrow> gOnChannel s' c = None)
          \<and> (\<forall>c p. c < min M (gNumControllers s) \<longrightarrow> gControllers s c = Some p \<longrightarrow>
                 heap s' p = fst (fillNext (fst (fillNext (reset_for c
                    (((heap s)(this := (heap s this)\<lparr>mPixels := pixels\<rparr>)) p))))))
          \<and> trace s' = trace s @ pre
               @ concat (map (\<lambda>c. start_events c
                    (((heap s)(this := (heap s this)\<lparr>mPixels := pixels\<rparr>))
                       (the (gControllers s c)))) [0..<min M (gNumControllers s)])
               @ map RmtTxStart [0..<min M (gNumControllers s)]
          \<and> list_all is_setup pre
          \<and> gTX_sem s' = Some False \<and> showPixels_resume s' = Inl WouldBlock
          \<and> cycle_inv M s'"
proof -
  let ?N = "gNumControllers s"
  let ?k = "min M ?N"
  let ?B = "(heap s)(this := (heap s this)\<lparr>mPixels := pixels\<rparr>)"
  have reg: "\<forall>i \<in> {0..<?N}. gControllers s i \<noteq> None"
    and dist: "distinct (map (gControllers s) [0..<?N])"
    and last: "gNumStarted s + 1 = ?N" and done0: "gNumDone s = 0"
    using assms by (simp_all add: awaiting_last_def)
  obtain s1 pre where pro:
    "(if gNumStarted s = 0 then
        (case (if \<not> gInitialized s then initRMT M this s else Inr s) of
           Inl e \<Rightarrow> Inl e
         | Inr s0 \<Rightarrow> xSemaphoreTake s0)
      else Inr s) = Inr s1"
    and s1: "heap s1 = heap s" "gControllers s1 = gControllers s"
      "gNumControllers s1 = ?N" "gNumStarted s1 = gNumStarted s"
      "gNumDone s1 = gNumDone s" "gTX_sem s1 = Some False"
      "\<forall>c \<in> {0..<M}. gOnChannel s1 c = None"
      "trace s1 = trace s @ pre" "list_all is_setup pre"
    using show_prologue [OF assms, of this] by blast
  define s3 where "s3 = s1\<lparr>heap := (heap s1)(this := (heap s1 this)\<lparr>mPixels := pixels\<rparr>),
                          gNumStarted := gNumStarted s1 + 1, gNext := 0\<rparr>"
  have s3: "heap s3 = ?B" "gControllers s3 = gControllers s" "gNumControllers s3 = ?N"
    "gNumStarted s3 = ?N" "gNumDone s3 = 0" "gTX_sem s3 = Some False"
    "gOnChannel s3 = gOnChannel s1" "trace s3 = trace s @ pre" "gNext s3 = 0"
    using s1 last done0 by (simp_all add: s3_def)
  have reg3: "\<forall>i \<in> {0..<gNumControllers s3}. gControllers s3 i \<noteq> None"
    using reg s3(2,3) by simp
  have dist3: "distinct (map (gControllers s3) [0..<gNumControllers s3])"
    using dist s3(2,3) by simp
  note run = start_loop_run [OF reg3 dist3 s3(9) _ refl, of M, unfolded s3(1-8)]
  obtain s4 where s4: "start_loop M 0 s3 = Inr (?k, s4)" "gNext s4 = ?k"
      "fixed_part s4 = fixed_part s3" "gNumDone s4 = 0" "gNumStarted s4 = ?N"
      "gTX_sem s4 = Some False"
      "\<forall>c. gOnChannel s4 c = (if 0 \<le> c \<and> c < ?k then gControllers s c else gOnChannel s1 c)"
      "\<forall>c p. 0 \<le> c \<longrightarrow> c < ?k \<longrightarrow> gControllers s c = Some p \<longrightarrow> heap s4 p = primed c (?B p)"
      "trace s4 = (trace s @ pre)
          @ concat (map (\<lambda>c. start_events c (?B (the (gControllers s c)))) [0..<?k])"
    using run by auto
  have fx: "gControllers s4 = gControllers s" "gNumControllers s4 = ?N"
    using s4(3) s3(2,3) by (simp_all add: fixed_part_def)
  have tx: "\<forall>i \<in> set [0..<?k]. \<exists>p. gControllers s4 i = Some p \<and> mRMT_channel (heap s4 p) = i"
  proof
    fix i assume "i \<in> set [0..<?k]"
    then have i: "i < ?k" by simp
    then have "i \<in> {0..<?N}" by simp
    then obtain p where p: "gControllers s i = Some p" using reg by blast
    then have "heap s4 p = primed i (?B p)" using s4(8) i by blast
    then show "\<exists>p. gControllers s4 i = Some p \<and> mRMT_channel (heap s4 p) = i"
      using p fx(1) primed_channel by simp
  qed
  define s5 where "s5 = s4\<lparr>trace := trace s4 @ map RmtTxStart [0..<?k]\<rparr>"
  have s5: "tx_start_loop [0..<?k] s4 = Inr s5"
    using tx_start_loop_run [OF tx] by (simp add: s5_def)
  have res: "showPixels M this pixels s = Inr (Waiting s5)"
    using pro s4(1) s5 s1(3,4) last
    by (simp add: showPixels_def Let_def s3_def)
  have f5: "gNext s5 = ?k" "gNumStarted s5 = ?N" "gNumDone s5 = 0" "gTX_sem s5 = Some False"
    "gOnChannel s5 = gOnChannel s4" "heap s5 = heap s4" "gControllers s5 = gControllers s"
    "gNumControllers s5 = ?N"
    "trace s5 = trace s @ pre
          @ concat (map (\<lambda>c. start_events c (?B (the (gControllers s c)))) [0..<?k])
          @ map RmtTxStart [0..<?k]"
    using s4 fx by (simp_all add: s5_def)
  have on: "\<forall>c. c < ?k \<longrightarrow> gOnChannel s5 c = gControllers s c"
    using s4(7) f5(5) by simp
  have off: "\<forall>c. ?k \<le> c \<longrightarrow> c < M \<longrightarrow> gOnChannel s5 c = None"
  proof (intro allI impI)
    fix c assume c: "?k \<le> c" "c < M"
    then have "\<not> (0 \<le> c \<and> c < ?k)" by simp
    then have "gOnChannel s4 c = gOnChannel s1 c" using s4(7) by auto
    moreover have "c \<in> {0..<M}" using c(2) by simp
    ultimately show "gOnChannel s5 c = None" using s1(7) f5(5) by simp
  qed
  have hp: "\<forall>c p. c < ?k \<longrightarrow> gControllers s c = Some p \<longrightarrow>
                 heap s5 p = fst (fillNext (fst (fillNext (reset_for c (?B p)))))"
    using s4(8) f5(6) by (simp add: primed_def)
  have blocked: "showPixels_resume s5 = Inl WouldBlock"
    by (simp add: showPixels_resume_eq f5(4))
  have N: "0 < ?N" using last by simp
  have occ: "occupied M s5 = ?k"
  proof -
    have "filter (\<lambda>c. gOnChannel s5 c \<noteq> None) [0..<M] = filter (\<lambda>c. c < ?k) [0..<M]"
    proof (rule filter_cong [OF refl])
      fix c assume "c \<in> set [0..<M]"
      then have c: "c < M" by simp
      show "(gOnChannel s5 c \<noteq> None) = (c < ?k)"
      proof (cases "c < ?k")
        case True
        then have "c \<in> {0..<?N}" by simp
        then show ?thesis using on reg True by auto
      next
        case False
        then show ?thesis using off c by simp
      qed
    qed
    then have "occupied M s5 = length [0..<?k]"
      unfolding occupied_def using filter_below [of ?k M] by (simp only: min.cobounded1)
    then show ?thesis by simp
  qed
  have inv: "cycle_inv M s5"
    unfolding cycle_inv_def registry_ok_def
    using reg N occ by (simp add: f5)
  show ?thesis
    using res f5(1,2,3,4,9) on off hp s1(9) blocked inv by blast
qed

text \<open>
  Claim C7. When the last strip of a cycle calls \<^verbatim>\<open>showPixels\<close> on \<open>M\<close> channels, the call
  puts the strips \<open>0, ..., min M N - 1\<close> of the registry (\<open>N\<close> strips) on the channels of the
  same numbers, in ascending order, and no strip on any further channel; each of these
  controllers is left as two calls of \<^verbatim>\<open>fillNext\<close> leave it after the reset for its channel;
  the trace continues with the set-up events, then for each channel in ascending order the
  events of its start (with the writes of the two fills), and only then
  \<^verbatim>\<open>rmt_tx_start\<close> for the channels \<open>0, ..., min M N - 1\<close> in ascending order. The caller then
  waits: the semaphore is not available and the rest of the call cannot go on. The state
  is one of a cycle under way.
\<close>

theorem showPixels_last_caller:
  assumes "awaiting_last M s"
  shows "\<exists>s' pre. showPixels M this pixels s = Inr (Waiting s')
          \<and> gNext s' = min M (gNumControllers s)
          \<and> gNumStarted s' = gNumControllers s \<and> gNumDone s' = 0
          \<and> (\<forall>c. c < min M (gNumControllers s) \<longrightarrow> gOnChannel s' c = gControllers s c)
          \<and> (\<forall>c. min M (gNumControllers s) \<le> c \<longrightarrow> c < M \<longrightarrow> gOnChannel s' c = None)
          \<and> (\<forall>c p. c < min M (gNumControllers s) \<longrightarrow> gControllers s c = Some p \<longrightarrow>
                 heap s' p = fst (fillNext (fst (fillNext (reset_for c
                    (((heap s)(this := (heap s this)\<lparr>mPixels := pixels\<rparr>)) p))))))
          \<and> trace s' = trace s @ pre
               @ concat (map (\<lambda>c. start_events c
                    (((heap s)(this := (heap s this)\<lparr>mPixels := pixels\<rparr>))
                       (the (gControllers s c)))) [0..<min M (gNumControllers s)])
               @ map RmtTxStart [0..<min M (gNumControllers s)]
          \<and> list_all is_setup pre
          \<and> gTX_sem s' = Some False \<and> showPixels_resume s' = Inl WouldBlock
          \<and> cycle_inv M s'"
  using showPixels_last [OF assms] .

theorem showPixels_last_caller_witness:
  "awaiting_last 3 (example_pending 3)
   \<and> (\<exists>s'. showPixels 3 1 [] (example_pending 3) = Inr (Waiting s')
          \<and> gNext s' = 2 \<and> gNumStarted s' = 2
          \<and> gOnChannel s' 0 = Some 0 \<and> gOnChannel s' 1 = Some 1 \<and> gOnChannel s' 2 = None
          \<and> gTX_sem s' = Some False \<and> showPixels_resume s' = Inl WouldBlock)"
proof -
  have idle: "gOnChannel (example_pending 3) 0 = None \<and> gOnChannel (example_pending 3) 1 = None
      \<and> gOnChannel (example_pending 3) 2 = None"
    by code_simp
  have "c = 0 \<or> c = 1 \<or> c = 2" if "c \<in> {0..<3::nat}" for c
    using that by auto
  then have chans: "\<forall>c \<in> {0..<3}. gOnChannel (example_pending 3) c = None"
    using idle by blast
  have "(\<forall>i \<in> {0..<gNumControllers (example_pending 3)}.
            gControllers (example_pending 3) i \<noteq> None)
      \<and> distinct (map (gControllers (example_pending 3))
                       [0..<gNumControllers (example_pending 3)])
      \<and> gNumStarted (example_pending 3) + 1 = gNumControllers (example_pending 3)
      \<and> gNumDone (example_pending 3) = 0
      \<and> gNumStarted (example_pending 3) \<noteq> 0
      \<and> gInitialized (example_pending 3) \<and> gTX_sem (example_pending 3) = Some False"
    by code_simp
  then have pre: "awaiting_last 3 (example_pending 3)"
    using chans unfolding awaiting_last_def by simp
  have v: "gNumControllers (example_pending 3) = 2"
    "gControllers (example_pending 3) 0 = Some 0" "gControllers (example_pending 3) 1 = Some 1"
    by code_simp+
  obtain s' where r: "showPixels 3 1 [] (example_pending 3) = Inr (Waiting s')"
    "gNext s' = min 3 (gNumControllers (example_pending 3))"
    "gNumStarted s' = gNumControllers (example_pending 3)"
    "\<forall>c. c < min 3 (gNumControllers (example_pending 3)) \<longrightarrow>
          gOnChannel s' c = gControllers (example_pending 3) c"
    "\<forall>c. min 3 (gNumControllers (example_pending 3)) \<le> c \<longrightarrow> c < 3 \<longrightarrow> gOnChannel s' c = None"
    "gTX_sem s' = Some False" "showPixels_resume s' = Inl WouldBlock"
    using showPixels_last_caller [OF pre, of 1 "[]"] by blast
  have "gNext s' = 2" "gNumStarted s' = 2" using r(2,3) v(1) by simp_all
  moreover have "gOnChannel s' 0 = Some 0" "gOnChannel s' 1 = Some 1"
    using r(4) v by simp_all
  moreover have "gOnChannel s' 2 = None" using r(5) v(1) by simp
  ultimately have "\<exists>s'. showPixels 3 1 [] (example_pending 3) = Inr (Waiting s')
          \<and> gNext s' = 2 \<and> gNumStarted s' = 2
          \<and> gOnChannel s' 0 = Some 0 \<and> gOnChannel s' 1 = Some 1 \<and> gOnChannel s' 2 = None
          \<and> gTX_sem s' = Some False \<and> showPixels_resume s' = Inl WouldBlock"
    using r(1,6,7) by (intro exI conjI)
  then show ?thesis using pre by blast
qed

end
